theory Spec2Isabelle
  imports Main "HOL-Library.Sublist" "HOL-Library.Char_ord" "HOL-Library.List_Lexorder"
    "HOL-Library.AList"
begin

section \<open>Merging PLIC point shards: the notebook \<open>process_plic_data\<close>\<close>

text \<open>
  The notebook defines three functions: \<open>assemble_shape\<close> reads every shard file of one
  iteration and concatenates them, \<open>get_iterations\<close> lists the iterations found in a
  folder, and \<open>process_shape\<close> assembles one iteration and pickles it. They are embedded
  here together with the parts of the Python library they call (\<open>glob.glob\<close>,
  \<open>str.split\<close>, \<open>str.format\<close>, \<open>int\<close>, \<open>sorted\<close>, \<open>pandas.read_csv\<close>,
  \<open>pandas.concat\<close>, \<open>DataFrame.dropna\<close>, \<open>reset_index\<close>, \<open>to_pickle\<close>).
  An exception is a value \<open>Inl e\<close>; the file system is an explicit argument.
\<close>

subsection \<open>Exceptions\<close>

datatype py_error =
    ValueError string
  | IndexError
  | FileNotFoundError
  | IsADirectoryError
  | NotADirectoryError
  | UnicodeDecodeError

subsection \<open>Strings: \<open>split\<close>, indexing, \<open>format\<close>, \<open>int\<close>\<close>

text \<open>\<open>s.split(c)\<close> for a one-character separator: always at least one piece.\<close>

fun split_on :: "char \<Rightarrow> string \<Rightarrow> string list" where
  "split_on c [] = [[]]"
| "split_on c (x # xs) =
     (if x = c then [] # split_on c xs
      else (case split_on c xs of
              [] \<Rightarrow> [[x]]
            | r # rs \<Rightarrow> (x # r) # rs))"

text \<open>\<open>xs[i]\<close> with Python's negative indices; out of range raises \<open>IndexError\<close>.\<close>

definition py_index :: "'a list \<Rightarrow> int \<Rightarrow> py_error + 'a" where
  "py_index xs i =
     (if 0 \<le> i \<and> i < int (length xs) then Inr (xs ! nat i)
      else if i < 0 \<and> - int (length xs) \<le> i then Inr (xs ! nat (int (length xs) + i))
      else Inl IndexError)"

definition digit_char :: "nat \<Rightarrow> char" where
  "digit_char d = char_of (48 + d)"

fun digits :: "nat \<Rightarrow> string" where
  "digits n = (if n < 10 then [digit_char n] else digits (n div 10) @ [digit_char (n mod 10)])"

declare digits.simps [simp del]

text \<open>
  \<open>"{:06d}".format(i)\<close>: the decimal numeral padded with zeros to six characters; the
  sign of a negative number counts among the six and comes first.
\<close>

definition zero_pad :: "nat \<Rightarrow> string \<Rightarrow> string" where
  "zero_pad w s = replicate (w - length s) (CHR ''0'') @ s"

definition format_06d :: "int \<Rightarrow> string" where
  "format_06d i =
     (if i < 0 then CHR ''-'' # zero_pad 5 (digits (nat (- i)))
      else zero_pad 6 (digits (nat i)))"

definition is_digit :: "char \<Rightarrow> bool" where
  "is_digit c = (CHR ''0'' \<le> c \<and> c \<le> CHR ''9'')"

definition digit_val :: "char \<Rightarrow> nat" where
  "digit_val c = of_char c - 48"

definition is_space :: "char \<Rightarrow> bool" where
  "is_space c = (c \<in> set [CHR '' '', CHR 0x09, CHR 0x0A, CHR 0x0B, CHR 0x0C, CHR 0x0D,
                          CHR 0x1C, CHR 0x1D, CHR 0x1E, CHR 0x1F])"

definition strip :: "string \<Rightarrow> string" where
  "strip s = rev (dropWhile is_space (rev (dropWhile is_space s)))"

definition digits_val :: "string \<Rightarrow> nat" where
  "digits_val s = foldl (\<lambda>a c. 10 * a + digit_val c) 0 s"

text \<open>
  \<open>int(s)\<close> in base ten on an ASCII string: surrounding white space is stripped, one
  sign is allowed, and at least one digit must follow; anything else raises
  \<open>ValueError\<close>. (Underscores between digits, which \<open>int\<close> also accepts, cannot reach
  it here: its argument is a piece of a string split at underscores.)
\<close>

definition py_int :: "string \<Rightarrow> py_error + int" where
  "py_int s =
     (let t = strip s;
          neg = (t \<noteq> [] \<and> hd t = CHR ''-'');
          ds = (if t \<noteq> [] \<and> (hd t = CHR ''-'' \<or> hd t = CHR ''+'') then tl t else t)
      in if ds \<noteq> [] \<and> list_all is_digit ds
         then Inr (if neg then - int (digits_val ds) else int (digits_val ds))
         else Inl (ValueError ''invalid literal for int() with base 10''))"

text \<open>A comprehension or loop that stops at the first exception.\<close>

fun map_err :: "('a \<Rightarrow> 'e + 'b) \<Rightarrow> 'a list \<Rightarrow> 'e + 'b list" where
  "map_err f [] = Inr []"
| "map_err f (x # xs) =
     (case f x of
        Inl e \<Rightarrow> Inl e
      | Inr y \<Rightarrow> (case map_err f xs of Inl e \<Rightarrow> Inl e | Inr ys \<Rightarrow> Inr (y # ys)))"

subsection \<open>Tables\<close>

text \<open>
  A cell of a float column is a number or the missing value NaN. The numbers are kept
  abstract (type \<open>'v\<close>): what the theory follows is where each one goes, not its bits.
  A row carries its index label: its position, or the cells of the leading columns when
  \<open>read_csv\<close> takes them as the index.
\<close>

datatype 'v cell = Num 'v | NaN

datatype 'v label = Pos nat | Key "'v cell list"

datatype dtype = Float32

record 'v table =
  columns :: "(string \<times> dtype) list"
  body :: "('v label \<times> 'v cell list) list"

definition index :: "'v table \<Rightarrow> 'v label list" where
  "index t = map fst (body t)"

definition rows :: "'v table \<Rightarrow> 'v cell list list" where
  "rows t = map snd (body t)"

subsection \<open>The file system\<close>

text \<open>
  A file system is an association list from paths to nodes; the first entry of a path
  counts. Paths are compared as written (the \<open>path\<close> argument without a trailing slash
  and without glob wildcards). A text file is the list of its lines, as the CSV
  tokenizer delimits them; a pickled table is the value \<open>to_pickle\<close> stored.
\<close>

datatype 'v node = Dir | Text "string list" | Pickled "'v table"

type_synonym 'v filesystem = "(string \<times> 'v node) list"

definition entry_name :: "string \<Rightarrow> string \<Rightarrow> string list" where
  "entry_name d p =
     (if prefix (d @ ''/'') p \<and> drop (Suc (length d)) p \<noteq> [] \<and>
         CHR ''/'' \<notin> set (drop (Suc (length d)) p)
      then [drop (Suc (length d)) p] else [])"

text \<open>\<open>os.scandir\<close>: the names in a directory, in no particular order; \<open>None\<close> when
  the path is not a directory.\<close>

definition listdir :: "'v filesystem \<Rightarrow> string \<Rightarrow> string list option" where
  "listdir fs d =
     (case map_of fs d of
        Some Dir \<Rightarrow> Some (remdups (concat (map (\<lambda>(p, _). entry_name d p) fs)))
      | _ \<Rightarrow> None)"

text \<open>
  The two shapes of pattern the notebook gives to \<open>glob\<close>: a literal followed by \<open>*\<close>
  and \<open>*\<close> followed by a literal. A name starting with a dot only matches a pattern
  starting with a dot. \<open>glob\<close> returns the matches joined to the directory; a
  directory that cannot be listed gives no match and no exception.
\<close>

datatype pattern = Lit_Star string | Star_Lit string

fun fnmatch :: "pattern \<Rightarrow> string \<Rightarrow> bool" where
  "fnmatch (Lit_Star s) name = prefix s name"
| "fnmatch (Star_Lit s) name = suffix s name"

definition ishidden :: "string \<Rightarrow> bool" where
  "ishidden name = (name \<noteq> [] \<and> hd name = CHR ''.'')"

fun pattern_hidden :: "pattern \<Rightarrow> bool" where
  "pattern_hidden (Lit_Star s) = ishidden s"
| "pattern_hidden (Star_Lit s) = False"

definition glob_match :: "pattern \<Rightarrow> string \<Rightarrow> bool" where
  "glob_match pat name = ((pattern_hidden pat \<or> \<not> ishidden name) \<and> fnmatch pat name)"

definition glob :: "'v filesystem \<Rightarrow> string \<Rightarrow> pattern \<Rightarrow> string list" where
  "glob fs d pat =
     (case listdir fs d of
        None \<Rightarrow> []
      | Some names \<Rightarrow> map (\<lambda>n. d @ ''/'' @ n) (filter (glob_match pat) names))"

subsection \<open>pandas\<close>

text \<open>
  \<open>read_csv(file, sep=" ", names=columns, engine='c', dtype=np.float32)\<close>.
  Lines that are empty or made of tabs only are skipped. Every other line is cut at
  each single space. The first record fixes the width of the table: when it has more
  fields than there are names, the surplus leading columns become the index and the
  names go to the last columns. A record that is too short is filled up with empty
  fields and one that is too long is cut. Every field is then converted to a float by
  \<open>conv\<close>, the parser's conversion of one field (\<open>None\<close>: not a number); one field that
  does not convert makes the whole call raise. The model covers lines without the
  quote character, and converts field by field (pandas reads a column that holds
  nothing but the words \<open>True\<close> and \<open>False\<close> as booleans and casts it; a
  conversion of single fields does not express that). A pickled table or a directory
  is not text that \<open>read_csv\<close> can read.
\<close>

definition blank_line :: "string \<Rightarrow> bool" where
  "blank_line l = list_all (\<lambda>c. c = CHR 0x09) l"

definition tokenize :: "string list \<Rightarrow> string list list" where
  "tokenize ls = map (split_on (CHR '' '')) (filter (\<lambda>l. \<not> blank_line l) ls)"

definition fit :: "nat \<Rightarrow> string list \<Rightarrow> string list" where
  "fit w r = take w (r @ replicate (w - length r) [])"

definition table_width :: "nat \<Rightarrow> string list list \<Rightarrow> nat" where
  "table_width k recs = (case recs of [] \<Rightarrow> k | r # _ \<Rightarrow> max (length r) k)"

definition frame :: "string list \<Rightarrow> nat \<Rightarrow> 'v cell list list \<Rightarrow> 'v table" where
  "frame names lead cells =
     \<lparr>columns = map (\<lambda>n. (n, Float32)) names,
      body = map (\<lambda>(i, r). (if lead = 0 then Pos i else Key (take lead r), drop lead r))
               (zip [0 ..< length cells] cells)\<rparr>"

definition to_float :: "(string \<Rightarrow> 'v cell option) \<Rightarrow> string \<Rightarrow> py_error + 'v cell" where
  "to_float conv tok =
     (case conv tok of
        None \<Rightarrow> Inl (ValueError ''could not convert string to float'')
      | Some c \<Rightarrow> Inr c)"

definition parse_csv ::
  "(string \<Rightarrow> 'v cell option) \<Rightarrow> string list \<Rightarrow> string list \<Rightarrow> py_error + 'v table" where
  "parse_csv conv names ls =
     (let recs = tokenize ls;
          w = table_width (length names) recs
      in case map_err (map_err (to_float conv)) (map (fit w) recs) of
           Inl e \<Rightarrow> Inl e
         | Inr cells \<Rightarrow> Inr (frame names (w - length names) cells))"

definition read_csv ::
  "(string \<Rightarrow> 'v cell option) \<Rightarrow> 'v filesystem \<Rightarrow> string \<Rightarrow> string list \<Rightarrow>
     py_error + 'v table" where
  "read_csv conv fs file names =
     (case map_of fs file of
        None \<Rightarrow> Inl FileNotFoundError
      | Some Dir \<Rightarrow> Inl IsADirectoryError
      | Some (Pickled _) \<Rightarrow> Inl UnicodeDecodeError
      | Some (Text ls) \<Rightarrow> parse_csv conv names ls)"

text \<open>\<open>pandas.concat\<close> of frames with the same columns: rows and labels in order; an
  empty list of frames raises.\<close>

definition pd_concat :: "'v table list \<Rightarrow> py_error + 'v table" where
  "pd_concat ts =
     (case ts of
        [] \<Rightarrow> Inl (ValueError ''No objects to concatenate'')
      | t # _ \<Rightarrow> Inr \<lparr>columns = columns t, body = concat (map body ts)\<rparr>)"

definition complete :: "'v cell list \<Rightarrow> bool" where
  "complete r = (NaN \<notin> set r)"

definition dropna :: "'v table \<Rightarrow> 'v table" where
  "dropna t = t\<lparr>body := filter (\<lambda>(l, r). complete r) (body t)\<rparr>"

definition reset_index :: "'v table \<Rightarrow> 'v table" where
  "reset_index t = t\<lparr>body := zip (map Pos [0 ..< length (body t)]) (map snd (body t))\<rparr>"

text \<open>\<open>to_pickle(dir + "/" + name)\<close>: the folder must exist; the file is created or
  replaced.\<close>

definition to_pickle ::
  "'v filesystem \<Rightarrow> 'v table \<Rightarrow> string \<Rightarrow> string \<Rightarrow> py_error + 'v filesystem" where
  "to_pickle fs data d name =
     (case map_of fs d of
        None \<Rightarrow> Inl FileNotFoundError
      | Some Dir \<Rightarrow>
          (case map_of fs (d @ ''/'' @ name) of
             Some Dir \<Rightarrow> Inl IsADirectoryError
           | _ \<Rightarrow> Inr (AList.update (d @ ''/'' @ name) (Pickled data) fs))
      | Some _ \<Rightarrow> Inl NotADirectoryError)"

subsection \<open>The conversion of one field\<close>

text \<open>
  The parser's conversion for a float column, with the number kept as the text it was
  read from: a field among the default missing-value markers is NaN; a decimal numeral
  (optional sign, digits with an optional point, optional exponent, white space around
  it) or a spelling of infinity is a number; any other field does not convert.
\<close>

definition na_values :: "string list" where
  "na_values = ['''', ''#N/A'', ''#N/A N/A'', ''#NA'', ''-1.#IND'', ''-1.#QNAN'', ''-NaN'',
     ''-nan'', ''1.#IND'', ''1.#QNAN'', ''<NA>'', ''N/A'', ''NA'', ''NULL'', ''NaN'', ''n/a'',
     ''nan'', ''null'']"

definition is_sign :: "char \<Rightarrow> bool" where
  "is_sign c = (c = CHR ''+'' \<or> c = CHR ''-'')"

definition skip_sign :: "string \<Rightarrow> string" where
  "skip_sign s = (if s \<noteq> [] \<and> is_sign (hd s) then tl s else s)"

definition isspace_ascii :: "char \<Rightarrow> bool" where
  "isspace_ascii c = (c \<in> set [CHR '' '', CHR 0x09, CHR 0x0A, CHR 0x0B, CHR 0x0C, CHR 0x0D])"

definition skip_exponent :: "string \<Rightarrow> string" where
  "skip_exponent s =
     (if s \<noteq> [] \<and> (hd s = CHR ''e'' \<or> hd s = CHR ''E'')
      then (let d = skip_sign (tl s)
            in if takeWhile is_digit d = [] then s else dropWhile is_digit d)
      else s)"

definition float_literal :: "string \<Rightarrow> bool" where
  "float_literal s =
     (let a = skip_sign (dropWhile isspace_ascii s);
          b = dropWhile is_digit a;
          c = (if b \<noteq> [] \<and> hd b = CHR ''.'' then dropWhile is_digit (tl b) else b);
          n = length (takeWhile is_digit a) +
              (if b \<noteq> [] \<and> hd b = CHR ''.'' then length (takeWhile is_digit (tl b)) else 0)
      in n \<noteq> 0 \<and> dropWhile isspace_ascii (skip_exponent c) = [])"

definition lower :: "char \<Rightarrow> char" where
  "lower c = (if CHR ''A'' \<le> c \<and> c \<le> CHR ''Z'' then char_of (of_char c + (32::nat)) else c)"

definition infinity_word :: "string \<Rightarrow> bool" where
  "infinity_word s = (map lower (skip_sign s) \<in> set [''inf'', ''infinity''])"

definition float_field :: "string \<Rightarrow> string cell option" where
  "float_field tok =
     (if tok \<in> set na_values then Some NaN
      else if float_literal tok \<or> infinity_word tok then Some (Num tok)
      else None)"

subsection \<open>The notebook's functions\<close>

text \<open>
  \<open>glob.glob(path + "/points_{:06d}_n".format(iteration) + "*")\<close> lists the directory
  \<open>path\<close> and matches the names in it against the rest of the pattern, so the model
  gives \<open>glob\<close> the directory and the name pattern apart; likewise for
  \<open>glob.glob(path + "/*_n000.txt")\<close> in \<open>get_iterations\<close>. The parameter \<open>conv\<close> is the
  conversion of \<open>read_csv\<close>.
\<close>

definition assemble_shape ::
  "(string \<Rightarrow> 'v cell option) \<Rightarrow> 'v filesystem \<Rightarrow> string \<Rightarrow> int \<Rightarrow> bool \<Rightarrow>
     py_error + 'v table" where
  "assemble_shape conv fs path iteration shape_2D =
     (let base_name = ''points_'' @ format_06d iteration @ ''_n'';
          files = sort (glob fs path (Lit_Star base_name));
          columns = (if shape_2D then [''px'', ''py''] else [''px'', ''py'', ''pz''])
      in case map_err (\<lambda>file. read_csv conv fs file columns) files of
           Inl e \<Rightarrow> Inl e
         | Inr points \<Rightarrow>
             (case pd_concat points of
                Inl e \<Rightarrow> Inl e
              | Inr all_points \<Rightarrow> Inr (reset_index (dropna all_points))))"

text \<open>\<open>int(path.split("/")[-1].split("_")[1])\<close> for one path of the comprehension.\<close>

definition iteration_of :: "string \<Rightarrow> py_error + int" where
  "iteration_of p =
     (case py_index (split_on (CHR ''/'') p) (- 1) of
        Inl e \<Rightarrow> Inl e
      | Inr name \<Rightarrow>
          (case py_index (split_on (CHR ''_'') name) 1 of
             Inl e \<Rightarrow> Inl e
           | Inr s \<Rightarrow> py_int s))"

definition get_iterations :: "'v filesystem \<Rightarrow> string \<Rightarrow> py_error + int list" where
  "get_iterations fs path =
     (let file_paths = glob fs path (Star_Lit ''_n000.txt'')
      in case map_err iteration_of file_paths of
           Inl e \<Rightarrow> Inl e
         | Inr iterations \<Rightarrow> Inr (sort iterations))"

definition process_shape ::
  "(string \<Rightarrow> 'v cell option) \<Rightarrow> 'v filesystem \<Rightarrow> string \<Rightarrow> string \<Rightarrow> int \<Rightarrow> bool \<Rightarrow>
     py_error + 'v filesystem" where
  "process_shape conv fs source target iteration shape_2D =
     (case assemble_shape conv fs source iteration shape_2D of
        Inl e \<Rightarrow> Inl e
      | Inr data \<Rightarrow>
          (let file_name = ''plic_'' @ format_06d iteration @ ''.pkl''
           in to_pickle fs data target file_name))"

subsection \<open>Names used in the statements\<close>

text \<open>The name of the process-0 shard of an iteration, and the prefix of all its shards.\<close>

definition process0_name :: "int \<Rightarrow> string" where
  "process0_name i = ''points_'' @ format_06d i @ ''_n000.txt''"

definition base_name :: "int \<Rightarrow> string" where
  "base_name i = ''points_'' @ format_06d i @ ''_n''"

text \<open>The value of \<open>files\<close> in \<open>assemble_shape\<close>, and of \<open>columns\<close>.\<close>

definition shard_files :: "'v filesystem \<Rightarrow> string \<Rightarrow> int \<Rightarrow> string list" where
  "shard_files fs path iteration =
     sort (glob fs path (Lit_Star (base_name iteration)))"

definition schema :: "bool \<Rightarrow> string list" where
  "schema shape_2D = (if shape_2D then [''px'', ''py''] else [''px'', ''py'', ''pz''])"

text \<open>
  A folder \<open>data\<close> with two shards of iteration 120, one shard of iteration 130 that
  has a field which is not a number, and a file that is no shard; and an empty folder
  \<open>out\<close>.
\<close>

definition example_fs :: "string filesystem" where
  "example_fs =
     [(''data'', Dir), (''out'', Dir),
      (''data/points_000120_n001.txt'', Text [''0.7 0.8'']),
      (''data/points_000120_n000.txt'', Text [''0.1 0.2'', '''', ''0.3 0.4'', ''0.5 0.6'']),
      (''data/points_000130_n000.txt'', Text [''0.1 0.2'', ''abc 0.4'', ''0.5 0.6'']),
      (''data/notes.txt'', Text [''hello''])]"

text \<open>
  The folder \<open>data\<close> of the example with one more file: in \<open>copied_fs\<close> a renamed copy
  of a process-0 shard, in \<open>notes_fs\<close> a file whose name ends like one.
\<close>

definition copied_fs :: "string filesystem" where
  "copied_fs = (''data/backup_000120_n000.txt'', Text [''0.1 0.2'']) # example_fs"

definition notes_fs :: "string filesystem" where
  "notes_fs = (''data/notes_n000.txt'', Text [''hello'']) # example_fs"

text \<open>
  The cells of the records of a file, as \<open>read_csv\<close> lays them out under the given
  names; a line that is a point record of \<open>k\<close> numbers, and its row; the lines of a
  text file.
\<close>

definition cell_of :: "(string \<Rightarrow> 'v cell option) \<Rightarrow> string \<Rightarrow> 'v cell" where
  "cell_of conv tok = (case conv tok of None \<Rightarrow> NaN | Some c \<Rightarrow> c)"

definition file_rows :: "(string \<Rightarrow> 'v cell option) \<Rightarrow> string list \<Rightarrow> string list \<Rightarrow> 'v cell list list" where
  "file_rows conv names ls =
     (let recs = tokenize ls;
          w = table_width (length names) recs
      in map (\<lambda>r. drop (w - length names) (map (cell_of conv) (fit w r))) recs)"

definition is_number :: "(string \<Rightarrow> 'v cell option) \<Rightarrow> string \<Rightarrow> bool" where
  "is_number conv tok = (case conv tok of Some (Num v) \<Rightarrow> True | _ \<Rightarrow> False)"

definition point_line :: "(string \<Rightarrow> 'v cell option) \<Rightarrow> nat \<Rightarrow> string \<Rightarrow> bool" where
  "point_line conv k l =
     (length (split_on (CHR '' '') l) = k \<and> list_all (is_number conv) (split_on (CHR '' '') l))"

definition point_row :: "(string \<Rightarrow> 'v cell option) \<Rightarrow> string \<Rightarrow> 'v cell list" where
  "point_row conv l = map (cell_of conv) (split_on (CHR '' '') l)"

definition text_of :: "'v filesystem \<Rightarrow> string \<Rightarrow> string list" where
  "text_of fs file = (case map_of fs file of Some (Text ls) \<Rightarrow> ls | _ \<Rightarrow> [])"

text \<open>A line of at most \<open>k\<close> fields, each of which converts (to a number or to NaN).\<close>

definition readable_line :: "(string \<Rightarrow> 'v cell option) \<Rightarrow> nat \<Rightarrow> string \<Rightarrow> bool" where
  "readable_line conv k l =
     (length (split_on (CHR '' '') l) \<le> k \<and>
      list_all (\<lambda>tok. conv tok \<noteq> None) (split_on (CHR '' '') l))"

text \<open>
  Two more folders: in \<open>gaps_fs\<close> a shard with a line of one field and a line whose
  first field is a missing-value marker; in \<open>stray_fs\<close> the example with a backup copy
  beside a shard.
\<close>

definition gaps_fs :: "string filesystem" where
  "gaps_fs =
     [(''data'', Dir),
      (''data/points_000150_n000.txt'',
         Text [''0.1 0.2'', ''0.3'', '''', ''nan 0.4'', ''0.5 0.6''])]"

definition stray_fs :: "string filesystem" where
  "stray_fs = (''data/points_000120_n000.txt.bak'', Text [''9.8 9.9'']) # example_fs"

text \<open>The value of \<open>file_name\<close> in \<open>process_shape\<close>.\<close>

definition artifact_name :: "int \<Rightarrow> string" where
  "artifact_name iteration = ''plic_'' @ format_06d iteration @ ''.pkl''"

section \<open>Properties\<close>

subsection \<open>Auxiliary facts\<close>

lemma assemble_shape_unfold:
  "assemble_shape conv fs path iteration shape_2D =
     (case map_err (\<lambda>file. read_csv conv fs file (schema shape_2D))
             (shard_files fs path iteration) of
        Inl e \<Rightarrow> Inl e
      | Inr points \<Rightarrow>
          (case pd_concat points of
             Inl e \<Rightarrow> Inl e
           | Inr all_points \<Rightarrow> Inr (reset_index (dropna all_points))))"
  by (simp add: assemble_shape_def shard_files_def base_name_def schema_def Let_def)

lemma glob_no_match:
  assumes "listdir fs d = None \<or>
           (\<exists>names. listdir fs d = Some names \<and> (\<forall>n\<in>set names. \<not> glob_match pat n))"
  shows "glob fs d pat = []"
  using assms by (auto simp: glob_def filter_empty_conv)

lemma example_listing:
  "listdir example_fs ''data'' = Some [''points_000120_n001.txt'', ''points_000120_n000.txt'',
      ''points_000130_n000.txt'', ''notes.txt'']"
  by code_simp

lemma split_on_not_Nil: "split_on c s \<noteq> []"
  by (induction s) (auto split: list.splits)

lemma split_on_append: "split_on c (a @ c # b) = split_on c a @ split_on c b"
proof (induction a)
  case Nil
  show ?case by simp
next
  case (Cons x a)
  obtain r rs where r: "split_on c a = r # rs"
    using split_on_not_Nil [of c a] by (cases "split_on c a") auto
  show ?case
    using Cons r by simp
qed

lemma split_on_free: "c \<notin> set s \<Longrightarrow> split_on c s = [s]"
  by (induction s) auto

lemma py_index_last: "xs \<noteq> [] \<Longrightarrow> py_index xs (- 1) = Inr (last xs)"
proof -
  assume ne: "xs \<noteq> []"
  then have pos: "0 < length xs" by simp
  then have "nat (int (length xs) + - 1) = length xs - 1" by simp
  moreover have "xs ! (length xs - 1) = last xs"
    using ne by (simp add: last_conv_nth)
  moreover have "- int (length xs) \<le> - 1"
    using pos by linarith
  ultimately show ?thesis
    by (simp add: py_index_def)
qed

lemma basename_of_joined:
  assumes "CHR ''/'' \<notin> set n"
  shows "py_index (split_on (CHR ''/'') (d @ ''/'' @ n)) (- 1) = Inr n"
proof -
  have "split_on (CHR ''/'') (d @ ''/'' @ n) = split_on (CHR ''/'') d @ [n]"
    using split_on_append [of "CHR ''/''" d n] assms by (simp add: split_on_free)
  then show ?thesis
    by (simp add: py_index_last)
qed

lemma of_char_digit_char: "d < 10 \<Longrightarrow> of_char (digit_char d) = 48 + d"
  by (simp add: digit_char_def)

lemma is_digit_digit_char: "d < 10 \<Longrightarrow> is_digit (digit_char d)"
  by (simp add: is_digit_def less_eq_char_def of_char_digit_char)

lemma digit_val_digit_char: "d < 10 \<Longrightarrow> digit_val (digit_char d) = d"
  by (simp add: digit_val_def of_char_digit_char)

lemma digits_not_Nil: "digits n \<noteq> []"
  by (subst digits.simps) simp

lemma digits_all_digit: "list_all is_digit (digits n)"
proof (induction n rule: digits.induct)
  case (1 n)
  show ?case
  proof (cases "n < 10")
    case True
    then show ?thesis
      by (subst digits.simps) (simp add: is_digit_digit_char)
  next
    case False
    then show ?thesis
      using 1 by (subst digits.simps) (simp add: is_digit_digit_char)
  qed
qed

lemma digits_val_snoc: "digits_val (s @ [c]) = 10 * digits_val s + digit_val c"
  by (simp add: digits_val_def)

lemma digits_val_digits: "digits_val (digits n) = n"
proof (induction n rule: digits.induct)
  case (1 n)
  show ?case
  proof (cases "n < 10")
    case True
    then show ?thesis
      by (subst digits.simps) (simp add: digits_val_def digit_val_digit_char)
  next
    case False
    then have "digits_val (digits (n div 10)) = n div 10"
      using 1 by simp
    then show ?thesis
      using False by (subst digits.simps) (simp add: digits_val_snoc digit_val_digit_char)
  qed
qed

lemma digit_val_zero: "digit_val (CHR ''0'') = 0"
  by (simp add: digit_val_def)

lemma digits_val_zeros: "foldl (\<lambda>a c. 10 * a + digit_val c) 0 (replicate k (CHR ''0'')) = 0"
  by (induction k) (simp_all add: digit_val_zero)

lemma digits_val_zero_pad: "digits_val (zero_pad w s) = digits_val s"
  by (simp add: zero_pad_def digits_val_def digits_val_zeros)

lemma is_digit_zero: "is_digit (CHR ''0'')"
  by (simp add: is_digit_def)

lemma zero_pad_all_digit: "list_all is_digit s \<Longrightarrow> list_all is_digit (zero_pad w s)"
  by (auto simp: zero_pad_def list_all_iff is_digit_zero)

lemma zero_pad_not_Nil: "s \<noteq> [] \<Longrightarrow> zero_pad w s \<noteq> []"
  by (simp add: zero_pad_def)

lemma is_digit_not_space: "is_digit c \<Longrightarrow> \<not> is_space c"
  by (auto simp: is_digit_def is_space_def less_eq_char_def)

lemma is_digit_not_sign: "is_digit c \<Longrightarrow> c \<noteq> CHR ''-'' \<and> c \<noteq> CHR ''+''"
  by (auto simp: is_digit_def less_eq_char_def)

lemma strip_id:
  assumes "s \<noteq> []" "\<not> is_space (hd s)" "\<not> is_space (last s)"
  shows "strip s = s"
proof -
  have a: "dropWhile is_space s = s"
    using assms by (cases s) auto
  have "rev s \<noteq> []" "\<not> is_space (hd (rev s))"
    using assms by (simp_all add: hd_rev)
  then have "dropWhile is_space (rev s) = rev s"
    by (cases "rev s") auto
  then show ?thesis
    by (simp add: strip_def a)
qed

lemma strip_digits: "s \<noteq> [] \<Longrightarrow> list_all is_digit s \<Longrightarrow> strip s = s"
  by (rule strip_id) (auto simp: list_all_iff is_digit_not_space)

lemma py_int_digits:
  assumes "s \<noteq> []" "list_all is_digit s"
  shows "py_int s = Inr (int (digits_val s))"
proof -
  have "is_digit (hd s)"
    using assms by (cases s) auto
  then have "hd s \<noteq> CHR ''-''" "hd s \<noteq> CHR ''+''"
    using is_digit_not_sign by blast+
  then show ?thesis
    using assms by (simp add: py_int_def strip_digits)
qed

lemma py_int_minus_digits:
  assumes "s \<noteq> []" "list_all is_digit s"
  shows "py_int (CHR ''-'' # s) = Inr (- int (digits_val s))"
proof -
  have "\<not> is_space (last s)"
    using assms by (auto simp: list_all_iff is_digit_not_space)
  moreover have "\<not> is_space (CHR ''-'')"
    by (simp add: is_space_def)
  ultimately have "strip (CHR ''-'' # s) = CHR ''-'' # s"
    using assms by (intro strip_id) auto
  then show ?thesis
    using assms by (simp add: py_int_def)
qed

lemma py_int_format_06d: "py_int (format_06d i) = Inr i"
proof (cases "i < 0")
  case True
  have "py_int (CHR ''-'' # zero_pad 5 (digits (nat (- i)))) =
          Inr (- int (digits_val (zero_pad 5 (digits (nat (- i))))))"
    by (rule py_int_minus_digits)
      (simp_all add: zero_pad_not_Nil digits_not_Nil zero_pad_all_digit digits_all_digit)
  then show ?thesis
    using True by (simp add: format_06d_def digits_val_zero_pad digits_val_digits)
next
  case False
  have "py_int (zero_pad 6 (digits (nat i))) = Inr (int (digits_val (zero_pad 6 (digits (nat i)))))"
    by (rule py_int_digits)
      (simp_all add: zero_pad_not_Nil digits_not_Nil zero_pad_all_digit digits_all_digit)
  then show ?thesis
    using False by (simp add: format_06d_def digits_val_zero_pad digits_val_digits)
qed

lemma format_06d_chars:
  assumes "c \<in> set (format_06d i)"
  shows "is_digit c \<or> c = CHR ''-''"
proof -
  have "list_all is_digit (zero_pad w (digits n))" for w n
    by (rule zero_pad_all_digit) (rule digits_all_digit)
  then have "\<forall>x\<in>set (zero_pad w (digits n)). is_digit x" for w n
    by (simp add: list_all_iff)
  then show ?thesis
    using assms by (cases "i < 0") (auto simp: format_06d_def)
qed

lemma format_06d_no_underscore: "CHR ''_'' \<notin> set (format_06d i)"
  using format_06d_chars [of "CHR ''_''" i] by (auto simp: is_digit_def less_eq_char_def)

lemma format_06d_inj:
  assumes "format_06d i = format_06d j"
  shows "i = j"
proof -
  have "py_int (format_06d i) = py_int (format_06d j)"
    by (simp only: assms)
  then have "(Inr i :: py_error + int) = Inr j"
    by (simp only: py_int_format_06d)
  then show ?thesis
    by simp
qed

lemma map_err_all_Inr: "(\<And>x. x \<in> set xs \<Longrightarrow> f x = Inr (g x)) \<Longrightarrow> map_err f xs = Inr (map g xs)"
  by (induction xs) simp_all

lemma entry_name_joined:
  "entry_name d (d @ ''/'' @ n) = (if n \<noteq> [] \<and> CHR ''/'' \<notin> set n then [n] else [])"
  by (simp add: entry_name_def)

lemma entry_name_sound:
  assumes "n \<in> set (entry_name d p)"
  shows "p = d @ ''/'' @ n \<and> n \<noteq> [] \<and> CHR ''/'' \<notin> set n"
proof -
  have "prefix (d @ ''/'') p" and n: "n = drop (Suc (length d)) p"
    and "n \<noteq> []" "CHR ''/'' \<notin> set n"
    using assms by (auto simp: entry_name_def split: if_splits)
  moreover from \<open>prefix (d @ ''/'') p\<close> obtain r where "p = (d @ ''/'') @ r"
    by (auto simp: prefix_def)
  ultimately show ?thesis
    by simp
qed

lemma listdir_Some:
  assumes "listdir fs d = Some names"
  shows "map_of fs d = Some Dir"
    and "names = remdups (concat (map (\<lambda>(p, _). entry_name d p) fs))"
  using assms by (auto simp: listdir_def split: option.splits node.splits)

lemma listdir_distinct:
  assumes "listdir fs d = Some names"
  shows "distinct names"
  unfolding listdir_Some(2) [OF assms] by simp

lemma listdir_entry:
  assumes "listdir fs d = Some names" "n \<in> set names"
  shows "n \<noteq> [] \<and> CHR ''/'' \<notin> set n \<and> d @ ''/'' @ n \<in> fst ` set fs"
proof -
  have "n \<in> set (concat (map (\<lambda>(p, _). entry_name d p) fs))"
    using assms(2) unfolding listdir_Some(2) [OF assms(1)] by simp
  then obtain p nd where "(p, nd) \<in> set fs" "n \<in> set (entry_name d p)"
    by auto
  then show ?thesis
    using entry_name_sound [of n d p] by force
qed

lemma glob_Some:
  "listdir fs d = Some names \<Longrightarrow>
     glob fs d pat = map (\<lambda>n. d @ ''/'' @ n) (filter (glob_match pat) names)"
  by (simp add: glob_def)

lemma glob_None: "listdir fs d = None \<Longrightarrow> glob fs d pat = []"
  by (simp add: glob_def)

lemma process0_name_split:
  "split_on (CHR ''_'') (process0_name i) = [''points'', format_06d i, ''n000.txt'']"
proof -
  have "split_on (CHR ''_'') (format_06d i @ CHR ''_'' # ''n000.txt'') =
          split_on (CHR ''_'') (format_06d i) @ split_on (CHR ''_'') ''n000.txt''"
    by (rule split_on_append)
  moreover have "split_on (CHR ''_'') (''points'' @ CHR ''_'' # (format_06d i @ ''_n000.txt'')) =
          split_on (CHR ''_'') ''points'' @ split_on (CHR ''_'') (format_06d i @ ''_n000.txt'')"
    by (rule split_on_append)
  ultimately show ?thesis
    by (simp add: process0_name_def split_on_free format_06d_no_underscore)
qed

lemma format_06d_no_slash: "CHR ''/'' \<notin> set (format_06d i)"
  using format_06d_chars [of "CHR ''/''" i] by (auto simp: is_digit_def less_eq_char_def)

lemma process0_name_no_slash: "CHR ''/'' \<notin> set (process0_name i)"
  by (simp add: process0_name_def format_06d_no_slash)

lemma iteration_of_shard: "iteration_of (d @ ''/'' @ process0_name i) = Inr i"
proof -
  have "py_index (split_on (CHR ''/'') (d @ ''/'' @ process0_name i)) (- 1) =
          Inr (process0_name i)"
    using process0_name_no_slash by (rule basename_of_joined)
  moreover have "py_index [''points'', format_06d i, ''n000.txt''] 1 = Inr (format_06d i)"
    by (simp add: py_index_def)
  ultimately show ?thesis
    by (simp add: iteration_of_def process0_name_split py_int_format_06d)
qed

lemma process0_name_glob_match: "glob_match (Star_Lit ''_n000.txt'') (process0_name i)"
proof -
  have "suffix ''_n000.txt'' ((''points_'' @ format_06d i) @ ''_n000.txt'')"
    by (rule suffixI) simp
  then show ?thesis
    by (simp add: glob_match_def ishidden_def process0_name_def)
qed

lemma process0_name_inj: "process0_name i = process0_name j \<Longrightarrow> i = j"
  by (simp add: process0_name_def format_06d_inj)

lemma joined_neq_dir: "d @ ''/'' @ n \<noteq> d"
proof
  assume "d @ ''/'' @ n = d"
  then have "length (d @ ''/'' @ n) = length d" by simp
  then show False by simp
qed

lemma listdir_Cons_entry:
  "listdir ((d @ CHR ''/'' # n, nd) # fs) d =
     (case listdir fs d of
        None \<Rightarrow> None
      | Some names \<Rightarrow>
          Some (remdups (entry_name d (d @ CHR ''/'' # n) @
                  concat (map (\<lambda>(p, _). entry_name d p) fs))))"
  using joined_neq_dir [of d n]
  by (auto simp: listdir_def split: option.splits node.splits)

lemma glob_Cons_no_match:
  assumes "\<not> glob_match pat n"
  shows "glob ((d @ CHR ''/'' # n, nd) # fs) d pat = glob fs d pat"
proof (cases "listdir fs d")
  case None
  then show ?thesis
    by (simp add: glob_def listdir_Cons_entry)
next
  case (Some names)
  let ?es = "concat (map (\<lambda>(p, _). entry_name d p) fs)"
  have names: "names = remdups ?es"
    by (rule listdir_Some(2) [OF Some])
  have e: "entry_name d (d @ CHR ''/'' # n) = (if n \<noteq> [] \<and> CHR ''/'' \<notin> set n then [n] else [])"
    using entry_name_joined [of d n] by simp
  have "filter (glob_match pat) (remdups (entry_name d (d @ CHR ''/'' # n) @ ?es)) =
          remdups (filter (glob_match pat) (entry_name d (d @ CHR ''/'' # n) @ ?es))"
    by (simp only: remdups_filter)
  also have "filter (glob_match pat) (entry_name d (d @ CHR ''/'' # n) @ ?es) =
          filter (glob_match pat) ?es"
    using assms by (simp add: e)
  also have "remdups (filter (glob_match pat) ?es) = filter (glob_match pat) names"
    by (simp only: remdups_filter names)
  finally show ?thesis
    by (simp add: glob_def listdir_Cons_entry Some)
qed

lemma map_err_Cons_Inr:
  "map_err f (x # xs) = Inr ys \<longleftrightarrow>
     (\<exists>y zs. ys = y # zs \<and> f x = Inr y \<and> map_err f xs = Inr zs)"
  by (auto split: sum.splits)

lemma map_err_Inr_iff: "map_err f xs = Inr ys \<longleftrightarrow> list_all2 (\<lambda>x y. f x = Inr y) xs ys"
proof (induction xs arbitrary: ys)
  case Nil
  show ?case by auto
next
  case (Cons x xs)
  show ?case
    unfolding map_err_Cons_Inr Cons list_all2_Cons1 by auto
qed

lemma to_float_Inr: "to_float conv tok = Inr c \<longleftrightarrow> conv tok = Some c"
  by (simp add: to_float_def split: option.splits)

lemma convert_record_Inr:
  "map_err (to_float conv) r = Inr cs \<longleftrightarrow>
     (\<forall>tok\<in>set r. conv tok \<noteq> None) \<and> cs = map (cell_of conv) r"
proof (induction r arbitrary: cs)
  case Nil
  show ?case by auto
next
  case (Cons tok r)
  show ?case
    unfolding map_err_Cons_Inr Cons to_float_Inr by (auto simp: cell_of_def)
qed

lemma convert_records_Inr:
  "map_err (map_err (to_float conv)) rs = Inr cells \<longleftrightarrow>
     (\<forall>r\<in>set rs. \<forall>tok\<in>set r. conv tok \<noteq> None) \<and> cells = map (map (cell_of conv)) rs"
proof (induction rs arbitrary: cells)
  case Nil
  show ?case by auto
next
  case (Cons r rs)
  have "map_err (map_err (to_float conv)) (r # rs) = Inr cells \<longleftrightarrow>
          (\<exists>c cs. cells = c # cs \<and> map_err (to_float conv) r = Inr c \<and>
                  map_err (map_err (to_float conv)) rs = Inr cs)"
    by (auto split: sum.splits)
  then show ?case
    unfolding Cons convert_record_Inr by auto
qed

lemma map_snd_zip_fun: "length xs = length ys \<Longrightarrow> map (\<lambda>p. f (snd p)) (zip xs ys) = map f ys"
  by (induction xs ys rule: list_induct2) simp_all

lemma map_fst_zip_fun: "length xs = length ys \<Longrightarrow> map (\<lambda>p. f (fst p)) (zip xs ys) = map f xs"
  by (induction xs ys rule: list_induct2) simp_all

lemma rows_frame: "rows (frame names lead cells) = map (drop lead) cells"
  by (simp add: rows_def frame_def split_def comp_def map_snd_zip_fun)

lemma index_frame_0: "index (frame names 0 cells) = map Pos [0 ..< length cells]"
  by (simp add: index_def frame_def split_def comp_def map_fst_zip_fun)

lemma columns_frame: "columns (frame names lead cells) = map (\<lambda>n. (n, Float32)) names"
  by (simp add: frame_def)

lemma parse_csv_Inr:
  assumes "parse_csv conv names ls = Inr tb"
  shows "rows tb = file_rows conv names ls"
    and "columns tb = map (\<lambda>n. (n, Float32)) names"
    and "\<forall>r\<in>set (tokenize ls). \<forall>tok\<in>set (fit (table_width (length names) (tokenize ls)) r).
           conv tok \<noteq> None"
proof -
  let ?w = "table_width (length names) (tokenize ls)"
  obtain cells where c: "map_err (map_err (to_float conv)) (map (fit ?w) (tokenize ls)) = Inr cells"
    and tb: "tb = frame names (?w - length names) cells"
    using assms by (auto simp: parse_csv_def Let_def split: sum.splits)
  from c have ok: "\<forall>r\<in>set (map (fit ?w) (tokenize ls)). \<forall>tok\<in>set r. conv tok \<noteq> None"
    and cells: "cells = map (map (cell_of conv)) (map (fit ?w) (tokenize ls))"
    unfolding convert_records_Inr by blast+
  show "rows tb = file_rows conv names ls"
    by (simp add: tb rows_frame cells file_rows_def Let_def comp_def)
  show "columns tb = map (\<lambda>n. (n, Float32)) names"
    by (simp add: tb columns_frame)
  show "\<forall>r\<in>set (tokenize ls). \<forall>tok\<in>set (fit ?w r). conv tok \<noteq> None"
    using ok by simp
qed

lemma parse_csv_ok:
  assumes "\<forall>r\<in>set (tokenize ls). \<forall>tok\<in>set (fit (table_width (length names) (tokenize ls)) r).
             conv tok \<noteq> None"
  shows "parse_csv conv names ls =
           Inr (frame names (table_width (length names) (tokenize ls) - length names)
                  (map (\<lambda>r. map (cell_of conv) (fit (table_width (length names) (tokenize ls)) r))
                     (tokenize ls)))"
proof -
  let ?w = "table_width (length names) (tokenize ls)"
  have "map_err (map_err (to_float conv)) (map (fit ?w) (tokenize ls)) =
          Inr (map (map (cell_of conv)) (map (fit ?w) (tokenize ls)))"
    unfolding convert_records_Inr using assms by simp
  then show ?thesis
    by (simp add: parse_csv_def Let_def comp_def)
qed

lemma read_csv_Inr:
  assumes "read_csv conv fs file names = Inr tb"
  shows "map_of fs file = Some (Text (text_of fs file))"
    and "parse_csv conv names (text_of fs file) = Inr tb"
  using assms by (auto simp: read_csv_def text_of_def split: option.splits node.splits)

lemma read_csv_Text: "map_of fs file = Some (Text ls) \<Longrightarrow> read_csv conv fs file names = parse_csv conv names ls"
  by (simp add: read_csv_def)

lemma rows_reset_index: "rows (reset_index t) = rows t"
  by (simp add: rows_def reset_index_def)

lemma index_reset_index: "index (reset_index t) = map Pos [0 ..< length (rows t)]"
  by (simp add: index_def rows_def reset_index_def)

lemma rows_dropna: "rows (dropna t) = filter complete (rows t)"
  by (simp add: rows_def dropna_def filter_map comp_def split_def)

lemma columns_reset_dropna: "columns (reset_index (dropna t)) = columns t"
  by (simp add: reset_index_def dropna_def)

lemma pd_concat_Inr:
  assumes "pd_concat ts = Inr t"
  shows "ts \<noteq> []" and "rows t = concat (map rows ts)" and "columns t = columns (hd ts)"
proof -
  have r: "rows = (\<lambda>x. map snd (body x))"
    by (simp add: fun_eq_iff rows_def)
  show "ts \<noteq> []" and "columns t = columns (hd ts)"
    using assms by (auto simp: pd_concat_def split: list.splits)
  show "rows t = concat (map rows ts)"
    using assms unfolding r by (auto simp: pd_concat_def map_concat comp_def split: list.splits)
qed

lemma pd_concat_ok: "ts \<noteq> [] \<Longrightarrow> \<exists>t. pd_concat ts = Inr t"
  by (cases ts) (simp_all add: pd_concat_def)

lemma list_all2_map_eq:
  "list_all2 R xs ys \<Longrightarrow> (\<And>x y. R x y \<Longrightarrow> g x = f y) \<Longrightarrow> map g xs = map f ys"
  by (induction rule: list_all2_induct) simp_all

lemma read_csv_rows:
  assumes "read_csv conv fs file names = Inr tb"
  shows "rows tb = file_rows conv names (text_of fs file)"
    and "columns tb = map (\<lambda>n. (n, Float32)) names"
  using parse_csv_Inr(1,2) [OF read_csv_Inr(2) [OF assms]] by simp_all

lemma assemble_shape_Inr:
  assumes "assemble_shape conv fs path iteration shape_2D = Inr t"
  shows "shard_files fs path iteration \<noteq> []"
    and "\<forall>file\<in>set (shard_files fs path iteration).
           \<exists>tb. read_csv conv fs file (schema shape_2D) = Inr tb"
    and "rows t = concat (map (\<lambda>file. filter complete
                    (file_rows conv (schema shape_2D) (text_of fs file)))
                  (shard_files fs path iteration))"
    and "index t = map Pos [0 ..< length (rows t)]"
    and "columns t = map (\<lambda>n. (n, Float32)) (schema shape_2D)"
proof -
  let ?files = "shard_files fs path iteration"
  let ?names = "schema shape_2D"
  obtain points all_points where
    p: "map_err (\<lambda>file. read_csv conv fs file ?names) ?files = Inr points"
    and c: "pd_concat points = Inr all_points"
    and t: "t = reset_index (dropna all_points)"
    using assms unfolding assemble_shape_unfold by (auto split: sum.splits)
  from p have all2: "list_all2 (\<lambda>file tb. read_csv conv fs file ?names = Inr tb) ?files points"
    by (simp add: map_err_Inr_iff)
  have ne: "points \<noteq> []"
    using c by (rule pd_concat_Inr(1))
  then show "?files \<noteq> []"
    using all2 by auto
  show "\<forall>file\<in>set ?files. \<exists>tb. read_csv conv fs file ?names = Inr tb"
    using all2 by (auto simp: list_all2_conv_all_nth in_set_conv_nth)
  have "map (\<lambda>file. filter complete (file_rows conv ?names (text_of fs file))) ?files =
          map (\<lambda>tb. filter complete (rows tb)) points"
    using all2 by (rule list_all2_map_eq) (simp add: read_csv_rows(1))
  moreover have "rows t = filter complete (concat (map rows points))"
    by (simp add: t rows_reset_index rows_dropna pd_concat_Inr(2) [OF c])
  ultimately show "rows t = concat (map (\<lambda>file. filter complete
                    (file_rows conv ?names (text_of fs file))) ?files)"
    by (simp add: filter_concat comp_def)
  show "index t = map Pos [0 ..< length (rows t)]"
    by (simp add: t index_reset_index rows_reset_index)
  have "hd points \<in> set points"
    using ne by simp
  then obtain fl where "read_csv conv fs fl ?names = Inr (hd points)"
    using all2 by (auto simp: list_all2_conv_all_nth in_set_conv_nth)
  then have "columns (hd points) = map (\<lambda>n. (n, Float32)) ?names"
    by (rule read_csv_rows(2))
  then show "columns t = map (\<lambda>n. (n, Float32)) ?names"
    by (simp add: t columns_reset_dropna pd_concat_Inr(3) [OF c])
qed

lemma map_err_ok:
  "(\<forall>x\<in>set xs. \<exists>y. f x = Inr y) \<Longrightarrow> \<exists>ys. map_err f xs = Inr ys \<and> length ys = length xs"
proof (induction xs)
  case Nil
  show ?case by simp
next
  case (Cons x xs)
  then obtain y ys where "f x = Inr y" "map_err f xs = Inr ys" "length ys = length xs"
    by auto
  then show ?case by simp
qed

lemma assemble_shape_ok:
  assumes "shard_files fs path iteration \<noteq> []"
    and "\<forall>file\<in>set (shard_files fs path iteration).
           \<exists>tb. read_csv conv fs file (schema shape_2D) = Inr tb"
  shows "\<exists>t. assemble_shape conv fs path iteration shape_2D = Inr t"
proof -
  obtain points where
    m: "map_err (\<lambda>file. read_csv conv fs file (schema shape_2D))
          (shard_files fs path iteration) = Inr points"
    and l: "length points = length (shard_files fs path iteration)"
    using map_err_ok [OF assms(2)] by blast
  have "points \<noteq> []"
    using l assms(1) by auto
  then obtain a where "pd_concat points = Inr a"
    using pd_concat_ok by blast
  then show ?thesis
    unfolding assemble_shape_unfold m by simp
qed

lemma tokenize_records:
  "tokenize ls = map (split_on (CHR '' '')) (filter (\<lambda>l. \<not> blank_line l) ls)"
  by (simp add: tokenize_def)

lemma table_width_fitting:
  assumes "\<forall>r\<in>set recs. length r \<le> k"
  shows "table_width k recs = k"
  using assms by (cases recs) (simp_all add: table_width_def max_def)

lemma fit_short: "length r \<le> k \<Longrightarrow> fit k r = r @ replicate (k - length r) []"
  by (simp add: fit_def)

lemma cell_of_NaN_iff:
  assumes "conv tok \<noteq> None"
  shows "cell_of conv tok \<noteq> NaN \<longleftrightarrow> is_number conv tok"
  using assms by (auto simp: cell_of_def is_number_def split: option.splits cell.splits)

lemma readable_line_convert:
  assumes "readable_line conv k l"
    and "conv [] = Some NaN \<or> length (split_on (CHR '' '') l) = k"
  shows "\<forall>tok\<in>set (fit k (split_on (CHR '' '') l)). conv tok \<noteq> None"
  using assms by (auto simp: readable_line_def fit_short list_all_iff)

lemma readable_line_complete:
  assumes "readable_line conv k l"
    and "conv [] = Some NaN \<or> length (split_on (CHR '' '') l) = k"
  shows "complete (map (cell_of conv) (fit k (split_on (CHR '' '') l))) \<longleftrightarrow> point_line conv k l"
proof -
  let ?r = "split_on (CHR '' '') l"
  have len: "length ?r \<le> k" and conv: "\<forall>tok\<in>set ?r. conv tok \<noteq> None"
    using assms(1) by (simp_all add: readable_line_def list_all_iff)
  have "cell_of conv tok \<noteq> NaN \<longleftrightarrow> is_number conv tok" if "tok \<in> set ?r" for tok
    using conv that by (intro cell_of_NaN_iff) blast
  then have body: "NaN \<notin> set (map (cell_of conv) ?r) \<longleftrightarrow> list_all (is_number conv) ?r"
    unfolding list_all_iff by force
  show ?thesis
  proof (cases "length ?r = k")
    case True
    then show ?thesis
      using body by (simp add: complete_def fit_short point_line_def)
  next
    case False
    then have "conv [] = Some NaN" "0 < k - length ?r"
      using assms(2) len by auto
    then have "NaN \<in> set (map (cell_of conv) (fit k ?r))"
      using len by (simp add: fit_short cell_of_def)
    then show ?thesis
      using False by (simp add: complete_def point_line_def)
  qed
qed

lemma point_line_row:
  "point_line conv k l \<Longrightarrow> map (cell_of conv) (fit k (split_on (CHR '' '') l)) = point_row conv l"
  by (simp add: point_line_def fit_short point_row_def)

lemma point_line_readable: "point_line conv k l \<Longrightarrow> readable_line conv k l"
  by (auto simp: point_line_def readable_line_def list_all_iff is_number_def
      split: option.splits)

lemma readable_file:
  assumes "\<forall>l\<in>set ls. blank_line l \<or> readable_line conv (length names) l"
    and "conv [] = Some NaN \<or>
         (\<forall>l\<in>set ls. \<not> blank_line l \<longrightarrow> length (split_on (CHR '' '') l) = length names)"
  shows "parse_csv conv names ls =
           Inr (frame names 0
                  (map (\<lambda>l. map (cell_of conv) (fit (length names) (split_on (CHR '' '') l)))
                     (filter (\<lambda>l. \<not> blank_line l) ls)))"
    and "filter complete (file_rows conv names ls) =
           map (point_row conv)
             (filter (point_line conv (length names)) (filter (\<lambda>l. \<not> blank_line l) ls))"
proof -
  let ?k = "length names"
  let ?ls = "filter (\<lambda>l. \<not> blank_line l) ls"
  let ?row = "\<lambda>l. map (cell_of conv) (fit ?k (split_on (CHR '' '') l))"
  have rd: "readable_line conv ?k l"
    and pad: "conv [] = Some NaN \<or> length (split_on (CHR '' '') l) = ?k" if "l \<in> set ?ls" for l
    using assms that by auto
  have "\<forall>r\<in>set (tokenize ls). length r \<le> ?k"
    using rd by (auto simp: tokenize_records readable_line_def)
  then have w: "table_width ?k (tokenize ls) = ?k"
    by (rule table_width_fitting)
  have "\<forall>r\<in>set (tokenize ls). \<forall>tok\<in>set (fit (table_width ?k (tokenize ls)) r). conv tok \<noteq> None"
    unfolding w using readable_line_convert [OF rd pad] by (auto simp: tokenize_records)
  then have "parse_csv conv names ls =
               Inr (frame names (table_width ?k (tokenize ls) - ?k)
                      (map (\<lambda>r. map (cell_of conv) (fit (table_width ?k (tokenize ls)) r))
                         (tokenize ls)))"
    by (rule parse_csv_ok)
  then show "parse_csv conv names ls = Inr (frame names 0 (map ?row ?ls))"
    unfolding w by (simp add: tokenize_records comp_def)
  have fr: "file_rows conv names ls = map ?row ?ls"
    unfolding file_rows_def Let_def w by (simp add: tokenize_records comp_def)
  have "filter complete (map ?row ?ls) = map ?row (filter (\<lambda>l. complete (?row l)) ?ls)"
    by (simp add: filter_map comp_def)
  also have "filter (\<lambda>l. complete (?row l)) ?ls = filter (point_line conv ?k) ?ls"
    by (rule filter_cong) (simp_all add: readable_line_complete [OF rd pad])
  also have "map ?row (filter (point_line conv ?k) ?ls) =
               map (point_row conv) (filter (point_line conv ?k) ?ls)"
    by (rule map_cong) (simp_all add: point_line_row)
  finally show "filter complete (file_rows conv names ls) =
                  map (point_row conv) (filter (point_line conv ?k) ?ls)"
    by (simp add: fr)
qed

lemma text_of_Text: "map_of fs file = Some (Text ls) \<Longrightarrow> text_of fs file = ls"
  by (simp add: text_of_def)

lemma blank_line_one_field: "blank_line l \<Longrightarrow> split_on (CHR '' '') l = [l]"
  by (rule split_on_free) (auto simp: blank_line_def list_all_iff)

lemma point_line_not_blank: "point_line conv k l \<Longrightarrow> 2 \<le> k \<Longrightarrow> \<not> blank_line l"
  using blank_line_one_field [of l] by (auto simp: point_line_def)

lemma schema_length: "length (schema shape_2D) = (if shape_2D then 2 else 3)"
  by (simp add: schema_def)

lemma length_fit: "length (fit w r) = w"
  by (simp add: fit_def)

lemma table_width_ge: "k \<le> table_width k recs"
  by (cases recs) (simp_all add: table_width_def)

lemma file_rows_length: "r \<in> set (file_rows conv names ls) \<Longrightarrow> length r = length names"
  using table_width_ge [of "length names" "tokenize ls"]
  by (auto simp: file_rows_def Let_def length_fit)

lemma point_file:
  assumes "\<forall>l\<in>set ls. blank_line l \<or> point_line conv (length names) l"
  shows "parse_csv conv names ls =
           Inr (frame names 0 (map (point_row conv) (filter (\<lambda>l. \<not> blank_line l) ls)))"
    and "filter complete (file_rows conv names ls) =
           map (point_row conv) (filter (\<lambda>l. \<not> blank_line l) ls)"
proof -
  let ?k = "length names"
  let ?ls = "filter (\<lambda>l. \<not> blank_line l) ls"
  have pl: "point_line conv ?k l" if "l \<in> set ?ls" for l
    using assms that by auto
  have a: "\<forall>l\<in>set ls. blank_line l \<or> readable_line conv ?k l"
    using assms point_line_readable by blast
  have b: "conv [] = Some NaN \<or>
           (\<forall>l\<in>set ls. \<not> blank_line l \<longrightarrow> length (split_on (CHR '' '') l) = ?k)"
    using assms by (auto simp: point_line_def)
  have "map (\<lambda>l. map (cell_of conv) (fit ?k (split_on (CHR '' '') l))) ?ls =
          map (point_row conv) ?ls"
    by (rule map_cong) (simp_all add: point_line_row [OF pl])
  then show "parse_csv conv names ls = Inr (frame names 0 (map (point_row conv) ?ls))"
    by (simp only: readable_file(1) [OF a b])
  have "filter (point_line conv ?k) ?ls = ?ls"
    by (rule filter_True) (use pl in blast)
  then show "filter complete (file_rows conv names ls) = map (point_row conv) ?ls"
    by (simp only: readable_file(2) [OF a b])
qed

lemma example_files_120:
  "shard_files example_fs ''data'' 120 =
     [''data/points_000120_n000.txt'', ''data/points_000120_n001.txt'']"
  by code_simp

lemma example_shard_120_0:
  "map_of example_fs ''data/points_000120_n000.txt'' =
     Some (Text [''0.1 0.2'', '''', ''0.3 0.4'', ''0.5 0.6''])"
  by code_simp

lemma example_shard_120_1:
  "map_of example_fs ''data/points_000120_n001.txt'' = Some (Text [''0.7 0.8''])"
  by code_simp

lemma glob_distinct: "distinct (glob fs d pat)"
proof (cases "listdir fs d")
  case None
  then show ?thesis by (simp add: glob_None)
next
  case (Some names)
  have "inj_on (\<lambda>n. d @ ''/'' @ n) (set (filter (glob_match pat) names))"
    by (rule inj_onI) simp
  then show ?thesis
    using listdir_distinct [OF Some] by (simp add: glob_Some [OF Some] distinct_map)
qed

lemma example_assembled_120:
  "assemble_shape float_field example_fs ''data'' 120 True =
     Inr \<lparr>columns = [(''px'', Float32), (''py'', Float32)],
          body = [(Pos 0, [Num ''0.1'', Num ''0.2'']), (Pos 1, [Num ''0.3'', Num ''0.4'']),
                  (Pos 2, [Num ''0.5'', Num ''0.6'']), (Pos 3, [Num ''0.7'', Num ''0.8''])]\<rparr>"
  by code_simp

lemma two_field_file:
  assumes "conv [] = Some NaN" and "\<forall>l\<in>set ls. point_line conv 2 l"
  shows "parse_csv conv [''px'', ''py'', ''pz''] ls =
           Inr (frame [''px'', ''py'', ''pz''] 0 (map (\<lambda>l. point_row conv l @ [NaN]) ls))"
proof -
  let ?names = "[''px'', ''py'', ''pz'']"
  have nb: "filter (\<lambda>l. \<not> blank_line l) ls = ls"
    by (rule filter_True) (use assms(2) point_line_not_blank in fastforce)
  have a: "\<forall>l\<in>set ls. blank_line l \<or> readable_line conv (length ?names) l"
    using assms(2) by (auto simp: point_line_def readable_line_def list_all_iff is_number_def
        split: option.splits)
  have b: "conv [] = Some NaN \<or>
           (\<forall>l\<in>set ls. \<not> blank_line l \<longrightarrow> length (split_on (CHR '' '') l) = length ?names)"
    using assms(1) by simp
  have "map (cell_of conv) (fit (length ?names) (split_on (CHR '' '') l)) = point_row conv l @ [NaN]"
    if "l \<in> set ls" for l
  proof -
    have "length (split_on (CHR '' '') l) = 2"
      using assms(2) that by (simp add: point_line_def)
    then show ?thesis
      using assms(1) by (simp add: fit_short point_row_def cell_of_def)
  qed
  then have "map (\<lambda>l. map (cell_of conv) (fit (length ?names) (split_on (CHR '' '') l))) ls =
               map (\<lambda>l. point_row conv l @ [NaN]) ls"
    by (intro map_cong [OF refl])
  then show ?thesis
    by (simp only: readable_file(1) [OF a b] nb)
qed

lemma point_line_filter_not_blank:
  assumes "2 \<le> k"
  shows "filter (point_line conv k) (filter (\<lambda>l. \<not> blank_line l) ls) = filter (point_line conv k) ls"
proof -
  have "(\<not> blank_line l \<and> point_line conv k l) = point_line conv k l" for l
    using point_line_not_blank [OF _ assms] by blast
  then show ?thesis
    by simp
qed

lemma readable_row:
  assumes "readable_line conv k l" and "conv [] = Some NaN"
  shows "map (cell_of conv) (fit k (split_on (CHR '' '') l)) =
           point_row conv l @ replicate (k - length (split_on (CHR '' '') l)) NaN"
  using assms by (simp add: readable_line_def fit_short point_row_def cell_of_def)

lemma gaps_files_150: "shard_files gaps_fs ''data'' 150 = [''data/points_000150_n000.txt'']"
  by code_simp

lemma gaps_shard_150:
  "map_of gaps_fs ''data/points_000150_n000.txt'' =
     Some (Text [''0.1 0.2'', ''0.3'', '''', ''nan 0.4'', ''0.5 0.6''])"
  by code_simp

lemma base_name_match:
  assumes "prefix (base_name iteration) n"
  shows "glob_match (Lit_Star (base_name iteration)) n"
proof -
  obtain r where "n = base_name iteration @ r"
    using assms by (auto simp: prefix_def)
  then have "\<not> ishidden n"
    by (simp add: base_name_def ishidden_def)
  then show ?thesis
    using assms by (simp add: glob_match_def)
qed

lemma stray_listing:
  "listdir stray_fs ''data'' = Some [''points_000120_n000.txt.bak'', ''points_000120_n001.txt'',
      ''points_000120_n000.txt'', ''points_000130_n000.txt'', ''notes.txt'']"
  by code_simp

lemma stray_assembled_120:
  "assemble_shape float_field stray_fs ''data'' 120 True =
     Inr \<lparr>columns = [(''px'', Float32), (''py'', Float32)],
          body = [(Pos 0, [Num ''0.1'', Num ''0.2'']), (Pos 1, [Num ''0.3'', Num ''0.4'']),
                  (Pos 2, [Num ''0.5'', Num ''0.6'']), (Pos 3, [Num ''9.8'', Num ''9.9'']),
                  (Pos 4, [Num ''0.7'', Num ''0.8''])]\<rparr>"
  by code_simp

lemma map_err_cong: "(\<And>x. x \<in> set xs \<Longrightarrow> f x = g x) \<Longrightarrow> map_err f xs = map_err g xs"
proof (induction xs)
  case Nil
  show ?case by simp
next
  case (Cons a xs)
  have "f a = g a" and "map_err f xs = map_err g xs"
    using Cons by simp_all
  then show ?case by (simp only: map_err.simps)
qed

lemma read_csv_cong: "map_of fs1 file = map_of fs2 file \<Longrightarrow> read_csv conv fs1 file names = read_csv conv fs2 file names"
  by (simp add: read_csv_def)

lemma shard_files_cong:
  assumes "set (glob fs1 path (Lit_Star (base_name iteration))) =
           set (glob fs2 path (Lit_Star (base_name iteration)))"
  shows "shard_files fs1 path iteration = shard_files fs2 path iteration"
  unfolding shard_files_def
  by (rule sorted_distinct_set_unique) (simp_all add: glob_distinct assms)

lemma set_shard_files:
  "set (shard_files fs path iteration) = set (glob fs path (Lit_Star (base_name iteration)))"
  by (simp add: shard_files_def)

lemma assemble_shape_cong:
  assumes "set (glob fs1 path (Lit_Star (base_name iteration))) =
           set (glob fs2 path (Lit_Star (base_name iteration)))"
    and "\<forall>f\<in>set (glob fs1 path (Lit_Star (base_name iteration))). map_of fs1 f = map_of fs2 f"
  shows "assemble_shape conv fs1 path iteration shape_2D =
         assemble_shape conv fs2 path iteration shape_2D"
proof -
  have "map_err (\<lambda>file. read_csv conv fs1 file (schema shape_2D)) (shard_files fs1 path iteration) =
        map_err (\<lambda>file. read_csv conv fs2 file (schema shape_2D)) (shard_files fs1 path iteration)"
  proof (rule map_err_cong)
    fix x assume "x \<in> set (shard_files fs1 path iteration)"
    then have "map_of fs1 x = map_of fs2 x"
      using assms(2) by (simp add: set_shard_files)
    then show "read_csv conv fs1 x (schema shape_2D) = read_csv conv fs2 x (schema shape_2D)"
      by (rule read_csv_cong)
  qed
  then show ?thesis
    by (simp only: assemble_shape_unfold shard_files_cong [OF assms(1)])
qed

lemma process_shape_unfold:
  "process_shape conv fs source target iteration shape_2D =
     (case assemble_shape conv fs source iteration shape_2D of
        Inl e \<Rightarrow> Inl e
      | Inr data \<Rightarrow> to_pickle fs data target (artifact_name iteration))"
  by (simp add: process_shape_def artifact_name_def Let_def split: sum.splits)

lemma to_pickle_Inr:
  assumes "to_pickle fs data d name = Inr fs'"
  shows "map_of fs d = Some Dir" and "map_of fs (d @ ''/'' @ name) \<noteq> Some Dir"
    and "fs' = AList.update (d @ ''/'' @ name) (Pickled data) fs"
  using assms by (auto simp: to_pickle_def split: option.splits node.splits)

lemma to_pickle_ok:
  assumes "map_of fs d = Some Dir" and "map_of fs (d @ ''/'' @ name) \<noteq> Some Dir"
  shows "to_pickle fs data d name = Inr (AList.update (d @ ''/'' @ name) (Pickled data) fs)"
  using assms by (auto simp: to_pickle_def split: option.splits node.splits)

lemma artifact_name_no_slash: "CHR ''/'' \<notin> set (artifact_name iteration)"
  by (simp add: artifact_name_def format_06d_no_slash)

lemma artifact_name_no_match: "\<not> glob_match (Lit_Star (base_name i)) (artifact_name j)"
  by (simp add: glob_match_def base_name_def artifact_name_def)

lemma joined_same_name:
  assumes "d1 @ ''/'' @ n1 = d2 @ ''/'' @ n2" and "CHR ''/'' \<notin> set n1" and "CHR ''/'' \<notin> set n2"
  shows "n1 = n2"
proof -
  have "py_index (split_on (CHR ''/'') (d1 @ ''/'' @ n1)) (- 1) = Inr n1"
    using assms(2) by (rule basename_of_joined)
  moreover have "py_index (split_on (CHR ''/'') (d2 @ ''/'' @ n2)) (- 1) = Inr n2"
    using assms(3) by (rule basename_of_joined)
  ultimately show ?thesis
    using assms(1) by simp
qed

lemma listdir_entries_keys:
  "concat (map (\<lambda>(p, _). entry_name d p) fs) = concat (map (entry_name d) (map fst fs))"
  by (simp add: comp_def split_def)

lemma glob_update_artifact:
  assumes "map_of fs source = Some Dir"
    and "map_of fs (target @ ''/'' @ artifact_name j) \<noteq> Some Dir"
  shows "glob (AList.update (target @ ''/'' @ artifact_name j) nd fs) source (Lit_Star (base_name i)) =
         glob fs source (Lit_Star (base_name i))"
proof -
  let ?art = "target @ ''/'' @ artifact_name j"
  let ?fs' = "AList.update ?art nd fs"
  let ?pat = "Lit_Star (base_name i)"
  let ?es = "concat (map (entry_name source) (map fst fs))"
  have ne: "?art \<noteq> source"
    using assms by auto
  then have dir: "map_of ?fs' source = Some Dir"
    using assms(1) by (simp add: update_conv')
  have nomatch: "filter (glob_match ?pat) (entry_name source ?art) = []"
  proof -
    have "\<not> glob_match ?pat n" if "n \<in> set (entry_name source ?art)" for n
    proof -
      have "?art = source @ ''/'' @ n" "CHR ''/'' \<notin> set n"
        using entry_name_sound [OF that] by simp_all
      then have "artifact_name j = n"
        using joined_same_name [of target "artifact_name j" source n] artifact_name_no_slash
        by simp
      then show ?thesis
        using artifact_name_no_match by metis
    qed
    then show ?thesis
      by (simp add: filter_empty_conv)
  qed
  have keys: "map fst ?fs' = map fst fs \<or> map fst ?fs' = map fst fs @ [?art]"
    by (simp add: update_keys)
  have main: "filter (glob_match ?pat) (remdups (?es @ entry_name source ?art)) =
              filter (glob_match ?pat) (remdups ?es)"
  proof -
    have "filter (glob_match ?pat) (remdups (?es @ entry_name source ?art)) =
          remdups (filter (glob_match ?pat) (?es @ entry_name source ?art))"
      by (simp only: remdups_filter)
    also have "\<dots> = remdups (filter (glob_match ?pat) ?es)"
      by (simp only: filter_append nomatch append_Nil2)
    also have "\<dots> = filter (glob_match ?pat) (remdups ?es)"
      by (simp only: remdups_filter)
    finally show ?thesis .
  qed
  have "filter (glob_match ?pat) (remdups (concat (map (entry_name source) (map fst ?fs')))) =
        filter (glob_match ?pat) (remdups ?es)"
    using keys
  proof
    assume k: "map fst ?fs' = map fst fs"
    show ?thesis
      by (simp only: k)
  next
    assume k: "map fst ?fs' = map fst fs @ [?art]"
    have "concat (map (entry_name source) (map fst fs @ [?art])) = ?es @ entry_name source ?art"
      by simp
    then show ?thesis
      by (simp only: k main)
  qed
  then have e: "filter (glob_match ?pat) (remdups (concat (map (\<lambda>(p, _). entry_name source p) ?fs'))) =
        filter (glob_match ?pat) (remdups (concat (map (\<lambda>(p, _). entry_name source p) fs)))"
    by (simp only: listdir_entries_keys)
  have l1: "listdir ?fs' source =
              Some (remdups (concat (map (\<lambda>(p, _). entry_name source p) ?fs')))"
    by (simp only: listdir_def dir option.case node.case)
  have l2: "listdir fs source = Some (remdups (concat (map (\<lambda>(p, _). entry_name source p) fs)))"
    by (simp only: listdir_def assms(1) option.case node.case)
  show ?thesis
    by (simp only: glob_Some [OF l1] glob_Some [OF l2] e)
qed

lemma glob_is_entry:
  assumes "f \<in> set (glob fs d pat)"
  shows "\<exists>n. f = d @ ''/'' @ n \<and> CHR ''/'' \<notin> set n \<and> glob_match pat n"
proof (cases "listdir fs d")
  case None
  then show ?thesis
    using assms by (simp add: glob_None)
next
  case (Some names)
  then obtain n where "n \<in> set names" "glob_match pat n" "f = d @ ''/'' @ n"
    using assms by (auto simp: glob_Some)
  then show ?thesis
    using listdir_entry [OF Some] by blast
qed

lemma shard_is_not_artifact:
  assumes "f \<in> set (glob fs source (Lit_Star (base_name i)))"
  shows "f \<noteq> target @ ''/'' @ artifact_name j"
proof
  assume e: "f = target @ ''/'' @ artifact_name j"
  obtain n where n: "f = source @ ''/'' @ n" "CHR ''/'' \<notin> set n"
    "glob_match (Lit_Star (base_name i)) n"
    using glob_is_entry [OF assms] by blast
  have "n = artifact_name j"
    using joined_same_name [of source n target "artifact_name j"] n(1,2) e
      artifact_name_no_slash by simp
  then show False
    using n(3) artifact_name_no_match by metis
qed

lemma update_lookup_other: "p \<noteq> k \<Longrightarrow> map_of (AList.update k v al) p = map_of al p"
  by (simp add: update_conv')

lemma update_lookup_same: "map_of (AList.update k v al) k = Some v"
  by (simp add: update_conv')

lemma listdir_has_entry:
  assumes "map_of fs d = Some Dir" and "map_of fs (d @ ''/'' @ n) = Some nd"
    and "n \<noteq> []" and "CHR ''/'' \<notin> set n"
  shows "\<exists>names. listdir fs d = Some names \<and> n \<in> set names"
proof -
  have "(d @ ''/'' @ n, nd) \<in> set fs"
    using assms(2) by (rule map_of_SomeD)
  moreover have "n \<in> set (entry_name d (d @ ''/'' @ n))"
    using assms(3,4) by (simp add: entry_name_def)
  ultimately have "n \<in> set (concat (map (\<lambda>(p, _). entry_name d p) fs))"
    by force
  then show ?thesis
    by (simp add: listdir_def assms(1))
qed

lemma artifact_name_not_Nil: "artifact_name i \<noteq> []"
  by (simp add: artifact_name_def)

lemma example_out: "map_of example_fs ''out'' = Some Dir"
  by code_simp

lemma example_artifact: "artifact_name 120 = ''plic_000120.pkl''"
  by code_simp

lemma example_no_artifact: "map_of example_fs (''out'' @ ''/'' @ artifact_name 120) \<noteq> Some Dir"
  by code_simp

lemma process_shape_Inr:
  assumes "process_shape conv fs source target iteration shape_2D = Inr fs'"
  shows "\<exists>data. assemble_shape conv fs source iteration shape_2D = Inr data \<and>
           map_of fs target = Some Dir \<and>
           map_of fs (target @ ''/'' @ artifact_name iteration) \<noteq> Some Dir \<and>
           fs' = AList.update (target @ ''/'' @ artifact_name iteration) (Pickled data) fs"
proof -
  obtain data where a: "assemble_shape conv fs source iteration shape_2D = Inr data"
    and p: "to_pickle fs data target (artifact_name iteration) = Inr fs'"
    using assms unfolding process_shape_unfold by (auto split: sum.splits)
  show ?thesis
    by (intro exI [of _ data] conjI a to_pickle_Inr [OF p])
qed

lemma assemble_shape_source_dir:
  assumes "assemble_shape conv fs source iteration shape_2D = Inr data"
  shows "map_of fs source = Some Dir"
proof -
  have "glob fs source (Lit_Star (base_name iteration)) \<noteq> []"
    using assemble_shape_Inr(1) [OF assms] by (auto simp: shard_files_def)
  then obtain names where "listdir fs source = Some names"
    by (cases "listdir fs source") (simp_all add: glob_None)
  then show ?thesis
    by (rule listdir_Some(1))
qed

lemma assemble_shape_after_write:
  assumes "assemble_shape conv fs source iteration shape_2D = Inr data"
    and "map_of fs (target @ ''/'' @ artifact_name j) \<noteq> Some Dir"
  shows "assemble_shape conv (AList.update (target @ ''/'' @ artifact_name j) nd fs)
           source iteration shape_2D = Inr data"
proof -
  let ?art = "target @ ''/'' @ artifact_name j"
  let ?fs' = "AList.update ?art nd fs"
  let ?pat = "Lit_Star (base_name iteration)"
  have g: "glob ?fs' source ?pat = glob fs source ?pat"
    using assemble_shape_source_dir [OF assms(1)] assms(2) by (rule glob_update_artifact)
  have "\<forall>f\<in>set (glob ?fs' source ?pat). map_of ?fs' f = map_of fs f"
  proof
    fix f assume "f \<in> set (glob ?fs' source ?pat)"
    then have "f \<in> set (glob fs source ?pat)"
      by (simp only: g)
    then have "f \<noteq> ?art"
      by (rule shard_is_not_artifact)
    then show "map_of ?fs' f = map_of fs f"
      by (rule update_lookup_other)
  qed
  then have "assemble_shape conv ?fs' source iteration shape_2D =
             assemble_shape conv fs source iteration shape_2D"
    by (intro assemble_shape_cong) (simp only: g)
  then show ?thesis
    by (simp only: assms(1))
qed

lemma example_written:
  "process_shape float_field example_fs ''data'' ''out'' 120 True =
     Inr (example_fs @ [(''out/plic_000120.pkl'', Pickled
        \<lparr>columns = [(''px'', Float32), (''py'', Float32)],
          body = [(Pos 0, [Num ''0.1'', Num ''0.2'']), (Pos 1, [Num ''0.3'', Num ''0.4'']),
                  (Pos 2, [Num ''0.5'', Num ''0.6'']), (Pos 3, [Num ''0.7'', Num ''0.8''])]\<rparr>)])"
  by code_simp

lemma example_reversed_written:
  "process_shape float_field (rev example_fs) ''data'' ''out'' 120 True =
     Inr (rev example_fs @ [(''out/plic_000120.pkl'', Pickled
        \<lparr>columns = [(''px'', Float32), (''py'', Float32)],
          body = [(Pos 0, [Num ''0.1'', Num ''0.2'']), (Pos 1, [Num ''0.3'', Num ''0.4'']),
                  (Pos 2, [Num ''0.5'', Num ''0.6'']), (Pos 3, [Num ''0.7'', Num ''0.8''])]\<rparr>)])"
  by code_simp

lemma example_reversed_glob:
  "set (glob example_fs ''data'' (Lit_Star (base_name 120))) =
   set (glob (rev example_fs) ''data'' (Lit_Star (base_name 120)))"
  by code_simp

lemma example_reversed_contents:
  "\<forall>f\<in>set (glob example_fs ''data'' (Lit_Star (base_name 120))).
     map_of example_fs f = map_of (rev example_fs) f"
  by code_simp

subsection \<open>No shard file for the iteration\<close>

text \<open>
  Claim C1, as the code has it: when the source directory is missing, or no name in it
  starts with the prefix of the iteration, \<open>assemble_shape\<close> raises the \<open>ValueError\<close> of
  \<open>pandas.concat\<close> on an empty list; it does not return an empty table.
\<close>

theorem assemble_shape_no_shards:
  assumes "listdir fs path = None \<or>
           (\<exists>names. listdir fs path = Some names \<and>
              (\<forall>n\<in>set names. \<not> prefix (''points_'' @ format_06d iteration @ ''_n'') n))"
  shows "assemble_shape conv fs path iteration shape_2D =
           Inl (ValueError ''No objects to concatenate'')"
proof -
  have "glob fs path (Lit_Star (''points_'' @ format_06d iteration @ ''_n'')) = []"
    by (rule glob_no_match) (use assms in \<open>auto simp: glob_match_def\<close>)
  then have "shard_files fs path iteration = []"
    by (simp add: shard_files_def base_name_def)
  then show ?thesis
    by (simp add: assemble_shape_unfold pd_concat_def)
qed

text \<open>The folder \<open>data\<close> exists and holds no shard of iteration 140.\<close>

theorem assemble_shape_no_shards_witness:
  "listdir example_fs ''data'' = Some [''points_000120_n001.txt'', ''points_000120_n000.txt'',
      ''points_000130_n000.txt'', ''notes.txt''] \<and>
   assemble_shape float_field example_fs ''data'' 140 True =
     Inl (ValueError ''No objects to concatenate'')"
proof -
  have f: "format_06d 140 = ''000140''"
    by code_simp
  have "\<exists>names. listdir example_fs ''data'' = Some names \<and>
          (\<forall>n\<in>set names. \<not> prefix (''points_'' @ format_06d 140 @ ''_n'') n)"
    unfolding example_listing f by simp
  then show ?thesis
    using assemble_shape_no_shards [of example_fs "''data''" 140 float_field True]
      example_listing by blast
qed

text \<open>The claim as written fails: for a folder that does not exist the call raises.\<close>

theorem assemble_shape_missing_directory_raises:
  "assemble_shape float_field example_fs ''nowhere'' 120 True =
     Inl (ValueError ''No objects to concatenate'')"
  by code_simp

subsection \<open>Discovery of the iterations\<close>

text \<open>
  Claim C3, as the code has it: when every name of the source directory that the pattern
  \<open>*_n000.txt\<close> matches is the process-0 name \<open>points_<iteration:06d>_n000.txt\<close> of
  some iteration, \<open>get_iterations\<close> returns exactly the iterations whose process-0
  shard is in the directory, sorted ascending and without duplicates; for a missing
  or empty directory this is the empty list.
\<close>

theorem get_iterations_named_shards:
  assumes "\<forall>names. listdir fs path = Some names \<longrightarrow>
             (\<forall>n\<in>set names. glob_match (Star_Lit ''_n000.txt'') n \<longrightarrow>
                (\<exists>i. n = process0_name i))"
  shows "\<exists>its. get_iterations fs path = Inr its \<and> sorted its \<and> distinct its \<and>
           set its = {i. \<exists>names. listdir fs path = Some names \<and>
                         process0_name i \<in> set names}"
proof (cases "listdir fs path")
  case None
  then show ?thesis
    by (simp add: get_iterations_def glob_None)
next
  case (Some names)
  define ns where "ns = filter (glob_match (Star_Lit ''_n000.txt'')) names"
  define g where "g = (\<lambda>n. SOME i. n = process0_name i)"
  have g: "n = process0_name (g n)" if "n \<in> set ns" for n
  proof -
    have "\<exists>i. n = process0_name i"
      using assms Some that by (auto simp: ns_def)
    then show ?thesis
      unfolding g_def by (rule someI_ex)
  qed
  have g_shard: "g (process0_name i) = i"
    if "process0_name i \<in> set ns" for i
    using g [OF that] process0_name_inj by metis
  have "iteration_of (path @ ''/'' @ n) = Inr (g n)" if "n \<in> set ns" for n
    using g [OF that] iteration_of_shard [of path "g n"] by simp
  then have "map_err iteration_of (map (\<lambda>n. path @ ''/'' @ n) ns) = Inr (map g ns)"
    by (induction ns) simp_all
  then have res: "get_iterations fs path = Inr (sort (map g ns))"
    by (simp add: get_iterations_def glob_Some [OF Some] ns_def)
  have "inj_on g (set ns)"
    by (rule inj_onI) (metis g)
  moreover have "distinct ns"
    using listdir_distinct [OF Some] by (simp add: ns_def)
  ultimately have "distinct (map g ns)"
    by (simp add: distinct_map)
  moreover have "g ` set ns = {i. process0_name i \<in> set names}"
  proof (intro equalityI subsetI)
    fix i assume "i \<in> g ` set ns"
    then obtain n where "n \<in> set ns" "i = g n" by blast
    then have "process0_name i \<in> set ns"
      using g by metis
    then show "i \<in> {i. process0_name i \<in> set names}"
      by (simp add: ns_def)
  next
    fix i assume "i \<in> {i. process0_name i \<in> set names}"
    then have "process0_name i \<in> set ns"
      by (simp add: ns_def process0_name_glob_match)
    then show "i \<in> g ` set ns"
      using g_shard by force
  qed
  ultimately show ?thesis
    using res Some by simp
qed

text \<open>In the folder \<open>data\<close> the two names ending in \<open>_n000.txt\<close> follow the pattern.\<close>

theorem get_iterations_named_shards_witness:
  "\<exists>its. get_iterations example_fs ''data'' = Inr its \<and> sorted its \<and> distinct its \<and>
     set its = {i. \<exists>names. listdir example_fs ''data'' = Some names \<and>
                   process0_name i \<in> set names}"
proof -
  have a: "''points_000120_n000.txt'' = process0_name 120"
    by code_simp
  have b: "''points_000130_n000.txt'' = process0_name 130"
    by code_simp
  have c: "\<not> glob_match (Star_Lit ''_n000.txt'') ''points_000120_n001.txt''"
    by code_simp
  have d: "\<not> glob_match (Star_Lit ''_n000.txt'') ''notes.txt''"
    by code_simp
  have "\<forall>names. listdir example_fs ''data'' = Some names \<longrightarrow>
          (\<forall>n\<in>set names. glob_match (Star_Lit ''_n000.txt'') n \<longrightarrow>
             (\<exists>i. n = process0_name i))"
    unfolding example_listing using a b c d by auto
  then show ?thesis
    by (rule get_iterations_named_shards)
qed

text \<open>
  The claim as written fails: a renamed copy of the process-0 shard of iteration 120
  makes the number appear twice.
\<close>

theorem get_iterations_duplicate:
  "get_iterations copied_fs ''data'' = Inr [120, 120, 130]"
  by code_simp

text \<open>
  Claim C4, as the code has it: a name that the pattern \<open>*_n000.txt\<close> does not match
  (it does not end in \<open>_n000.txt\<close>, or it starts with a dot) is ignored by
  \<open>get_iterations\<close>: adding such an entry to the source directory changes neither the
  result nor whether the call raises.
\<close>

theorem get_iterations_ignores_other_names:
  assumes "\<not> glob_match (Star_Lit ''_n000.txt'') name"
  shows "get_iterations ((path @ ''/'' @ name, nd) # fs) path = get_iterations fs path"
  by (simp add: get_iterations_def glob_Cons_no_match [OF assms])

text \<open>A shard of process 1 added to the folder \<open>data\<close> leaves the result as it is.\<close>

theorem get_iterations_ignores_other_names_witness:
  "\<not> glob_match (Star_Lit ''_n000.txt'') ''points_000140_n001.txt'' \<and>
   get_iterations ((''data'' @ ''/'' @ ''points_000140_n001.txt'', Text [''0.9 1.0'']) # example_fs)
     ''data'' = get_iterations example_fs ''data'' \<and>
   get_iterations example_fs ''data'' = Inr [120, 130]"
proof -
  have h: "\<not> glob_match (Star_Lit ''_n000.txt'') ''points_000140_n001.txt''"
    by code_simp
  have v: "get_iterations example_fs ''data'' = Inr [120, 130]"
    by code_simp
  show ?thesis
    using h v get_iterations_ignores_other_names [OF h, of "''data''" "Text [''0.9 1.0'']" example_fs]
    by blast
qed

text \<open>
  The claim as written fails: \<open>notes_n000.txt\<close> does not follow the naming pattern, and
  it is not ignored: \<open>int\<close> raises on the piece \<open>n000.txt\<close> of its name.
\<close>

theorem get_iterations_raises_on_other_name:
  "get_iterations notes_fs ''data'' = Inl (ValueError ''invalid literal for int() with base 10'')"
  by code_simp

subsection \<open>Blank lines\<close>

text \<open>
  Claim C5: when every line of every shard file of the iteration is blank (empty, or
  tabs only: the lines the parser skips) or a point line of as many numbers as there
  are columns, \<open>assemble_shape\<close> returns a table whose rows are, file after file, the
  rows of the non-blank lines in their order, so that each file contributes exactly as
  many rows as it has non-blank lines; and already the table parsed from each file has
  one row per non-blank line, so that a blank line makes no row at all.
\<close>

theorem blank_lines_make_no_row:
  assumes "shard_files fs path iteration \<noteq> []"
    and "\<forall>file\<in>set (shard_files fs path iteration).
           \<exists>ls. map_of fs file = Some (Text ls) \<and>
             (\<forall>l\<in>set ls. blank_line l \<or> point_line conv (length (schema shape_2D)) l)"
  shows "\<exists>t. assemble_shape conv fs path iteration shape_2D = Inr t \<and>
           rows t = concat (map (\<lambda>file. map (point_row conv)
                       (filter (\<lambda>l. \<not> blank_line l) (text_of fs file)))
                     (shard_files fs path iteration)) \<and>
           length (rows t) = sum_list (map (\<lambda>file.
                       length (filter (\<lambda>l. \<not> blank_line l) (text_of fs file)))
                     (shard_files fs path iteration)) \<and>
           (\<forall>file\<in>set (shard_files fs path iteration).
              \<exists>tb. read_csv conv fs file (schema shape_2D) = Inr tb \<and>
                rows tb = map (point_row conv)
                            (filter (\<lambda>l. \<not> blank_line l) (text_of fs file)))"
proof -
  let ?files = "shard_files fs path iteration"
  let ?names = "schema shape_2D"
  let ?pts = "\<lambda>fl. map (point_row conv) (filter (\<lambda>l. \<not> blank_line l) (text_of fs fl))"
  have pf: "read_csv conv fs fl ?names = Inr (frame ?names 0 (?pts fl)) \<and>
            filter complete (file_rows conv ?names (text_of fs fl)) = ?pts fl"
    if "fl \<in> set ?files" for fl
  proof -
    from bspec [OF assms(2) that]
    obtain ls where ls: "map_of fs fl = Some (Text ls)"
      and ok: "\<forall>l\<in>set ls. blank_line l \<or> point_line conv (length ?names) l"
      by (elim exE conjE)
    show ?thesis
      unfolding read_csv_Text [OF ls] text_of_Text [OF ls]
      by (intro conjI point_file [OF ok])
  qed
  have parsed: "\<forall>fl\<in>set ?files. \<exists>tb. read_csv conv fs fl ?names = Inr tb \<and>
                  rows tb = ?pts fl"
  proof
    fix fl assume "fl \<in> set ?files"
    from pf [OF this] have "read_csv conv fs fl ?names = Inr (frame ?names 0 (?pts fl))"
      by (rule conjunct1)
    moreover have "rows (frame ?names 0 (?pts fl)) = ?pts fl"
      unfolding rows_frame by simp
    ultimately show "\<exists>tb. read_csv conv fs fl ?names = Inr tb \<and> rows tb = ?pts fl"
      by blast
  qed
  then have "\<forall>fl\<in>set ?files. \<exists>tb. read_csv conv fs fl ?names = Inr tb"
    by blast
  then obtain t where t: "assemble_shape conv fs path iteration shape_2D = Inr t"
    using assemble_shape_ok [OF assms(1)] by blast
  have "map (\<lambda>fl. filter complete (file_rows conv ?names (text_of fs fl))) ?files = map ?pts ?files"
    by (rule map_cong [OF refl]) (rule conjunct2 [OF pf])
  then have r: "rows t = concat (map ?pts ?files)"
    by (simp only: assemble_shape_Inr(3) [OF t])
  have len: "length (rows t) = sum_list (map (\<lambda>fl.
          length (filter (\<lambda>l. \<not> blank_line l) (text_of fs fl))) ?files)"
    by (simp add: r length_concat comp_def)
  show ?thesis
    by (intro exI [of _ t] conjI t r len parsed)
qed

text \<open>The two shards of iteration 120; the first has a blank line between two facets.\<close>

theorem blank_lines_make_no_row_witness:
  "\<exists>t. assemble_shape float_field example_fs ''data'' 120 True = Inr t \<and>
     rows t = concat (map (\<lambda>file. map (point_row float_field)
                 (filter (\<lambda>l. \<not> blank_line l) (text_of example_fs file)))
               (shard_files example_fs ''data'' 120)) \<and>
     length (rows t) = sum_list (map (\<lambda>file.
                 length (filter (\<lambda>l. \<not> blank_line l) (text_of example_fs file)))
               (shard_files example_fs ''data'' 120)) \<and>
     (\<forall>file\<in>set (shard_files example_fs ''data'' 120).
        \<exists>tb. read_csv float_field example_fs file (schema True) = Inr tb \<and>
          rows tb = map (point_row float_field)
                      (filter (\<lambda>l. \<not> blank_line l) (text_of example_fs file)))"
proof -
  have a: "\<forall>l\<in>set [''0.1 0.2'', '''', ''0.3 0.4'', ''0.5 0.6''].
             blank_line l \<or> point_line float_field (length (schema True)) l"
    by code_simp
  have b: "\<forall>l\<in>set [''0.7 0.8'']. blank_line l \<or> point_line float_field (length (schema True)) l"
    by code_simp
  have h1: "shard_files example_fs ''data'' 120 \<noteq> []"
    by (simp add: example_files_120)
  have h2: "\<forall>file\<in>set (shard_files example_fs ''data'' 120).
              \<exists>ls. map_of example_fs file = Some (Text ls) \<and>
                (\<forall>l\<in>set ls. blank_line l \<or> point_line float_field (length (schema True)) l)"
    unfolding example_files_120 using a b example_shard_120_0 example_shard_120_1 by simp
  show ?thesis
    by (rule blank_lines_make_no_row [OF h1 h2])
qed

subsection \<open>Order of the rows\<close>

text \<open>
  Claim C6: when \<open>assemble_shape\<close> returns a table, the files it read are the matches
  of the prefix in ascending order of their names (the order of strings by character
  codes), each once; the rows of the table are the complete rows of the first file in
  the order of its lines, then those of the second file, and so on; and the index of
  the table is \<open>0, 1, ..., N - 1\<close>.
\<close>

theorem assemble_shape_order:
  assumes "assemble_shape conv fs path iteration shape_2D = Inr t"
  shows "sorted (shard_files fs path iteration) \<and>
         distinct (shard_files fs path iteration) \<and>
         set (shard_files fs path iteration) = set (glob fs path (Lit_Star (base_name iteration))) \<and>
         rows t = concat (map (\<lambda>file. filter complete
                     (file_rows conv (schema shape_2D) (text_of fs file)))
                   (shard_files fs path iteration)) \<and>
         index t = map Pos [0 ..< length (rows t)]"
proof -
  have "sorted (shard_files fs path iteration)"
    by (simp add: shard_files_def)
  moreover have "distinct (shard_files fs path iteration)"
    by (simp add: shard_files_def glob_distinct)
  moreover have "set (shard_files fs path iteration) =
                   set (glob fs path (Lit_Star (base_name iteration)))"
    by (simp add: shard_files_def)
  ultimately show ?thesis
    using assemble_shape_Inr(3,4) [OF assms] by blast
qed

text \<open>Iteration 120 of the example: process 0 comes first although it is listed last.\<close>

theorem assemble_shape_order_witness:
  "shard_files example_fs ''data'' 120 =
     [''data/points_000120_n000.txt'', ''data/points_000120_n001.txt''] \<and>
   (\<exists>t. assemble_shape float_field example_fs ''data'' 120 True = Inr t \<and>
      rows t = [[Num ''0.1'', Num ''0.2''], [Num ''0.3'', Num ''0.4''],
                [Num ''0.5'', Num ''0.6''], [Num ''0.7'', Num ''0.8'']] \<and>
      sorted (shard_files example_fs ''data'' 120) \<and>
      distinct (shard_files example_fs ''data'' 120) \<and>
      set (shard_files example_fs ''data'' 120) =
        set (glob example_fs ''data'' (Lit_Star (base_name 120))) \<and>
      rows t = concat (map (\<lambda>file. filter complete
                  (file_rows float_field (schema True) (text_of example_fs file)))
                (shard_files example_fs ''data'' 120)) \<and>
      index t = map Pos [0 ..< length (rows t)])"
proof -
  let ?t = "\<lparr>columns = [(''px'', Float32), (''py'', Float32)],
          body = [(Pos 0, [Num ''0.1'', Num ''0.2'']), (Pos 1, [Num ''0.3'', Num ''0.4'']),
                  (Pos 2, [Num ''0.5'', Num ''0.6'']), (Pos 3, [Num ''0.7'', Num ''0.8''])]\<rparr>"
  have r: "rows ?t = [[Num ''0.1'', Num ''0.2''], [Num ''0.3'', Num ''0.4''],
                [Num ''0.5'', Num ''0.6''], [Num ''0.7'', Num ''0.8'']]"
    by (simp add: rows_def)
  from assemble_shape_order [OF example_assembled_120] example_assembled_120 r example_files_120
  show ?thesis
    by (intro conjI exI [of _ ?t]) (elim conjE, assumption)+
qed

subsection \<open>Columns\<close>

text \<open>
  Claim C7: a table returned by \<open>assemble_shape\<close> has exactly the columns \<open>px, py\<close>
  when the 2D flag is set and \<open>px, py, pz\<close> when it is not, and each of its rows has
  that many cells. A file whose lines carry two numbers each, read under the three
  names, gives one row per line with the two numbers under \<open>px\<close> and \<open>py\<close> in their
  places and NaN under \<open>pz\<close>, indexed by position (no column is taken as the index);
  the cleaning step then drops every one of these rows.
\<close>

theorem assemble_shape_columns:
  "(assemble_shape conv fs path iteration shape_2D = Inr t \<longrightarrow>
      map fst (columns t) = (if shape_2D then [''px'', ''py''] else [''px'', ''py'', ''pz'']) \<and>
      (\<forall>r\<in>set (rows t). length r = (if shape_2D then 2 else 3))) \<and>
   (conv [] = Some NaN \<and> (\<forall>l\<in>set ls. point_line conv 2 l) \<longrightarrow>
      (\<exists>tb. parse_csv conv [''px'', ''py'', ''pz''] ls = Inr tb \<and>
         index tb = map Pos [0 ..< length ls] \<and>
         rows tb = map (\<lambda>l. point_row conv l @ [NaN]) ls \<and>
         rows (dropna tb) = []))"
proof (intro conjI impI)
  assume a: "assemble_shape conv fs path iteration shape_2D = Inr t"
  show "map fst (columns t) = (if shape_2D then [''px'', ''py''] else [''px'', ''py'', ''pz''])"
    by (simp add: assemble_shape_Inr(5) [OF a] schema_def comp_def)
  show "\<forall>r\<in>set (rows t). length r = (if shape_2D then 2 else 3)"
    unfolding assemble_shape_Inr(3) [OF a]
    using file_rows_length [of _ conv "schema shape_2D"] by (auto simp: schema_length)
next
  assume "conv [] = Some NaN \<and> (\<forall>l\<in>set ls. point_line conv 2 l)"
  then have p: "parse_csv conv [''px'', ''py'', ''pz''] ls =
      Inr (frame [''px'', ''py'', ''pz''] 0 (map (\<lambda>l. point_row conv l @ [NaN]) ls))"
    using two_field_file by blast
  let ?tb = "frame [''px'', ''py'', ''pz''] 0 (map (\<lambda>l. point_row conv l @ [NaN]) ls)"
  have i: "index ?tb = map Pos [0 ..< length ls]"
    by (simp add: index_frame_0)
  have r: "rows ?tb = map (\<lambda>l. point_row conv l @ [NaN]) ls"
    by (simp add: rows_frame)
  have d: "rows (dropna ?tb) = []"
    unfolding rows_dropna r by (simp add: filter_empty_conv complete_def)
  show "\<exists>tb. parse_csv conv [''px'', ''py'', ''pz''] ls = Inr tb \<and>
         index tb = map Pos [0 ..< length ls] \<and>
         rows tb = map (\<lambda>l. point_row conv l @ [NaN]) ls \<and>
         rows (dropna tb) = []"
    by (intro exI [of _ ?tb] conjI p i r d)
qed

text \<open>Iteration 120 of the example under the 2D flag, and a file of two lines of two
  numbers under the three names.\<close>

theorem assemble_shape_columns_witness:
  "\<exists>t. assemble_shape float_field example_fs ''data'' 120 True = Inr t \<and>
     float_field [] = Some NaN \<and>
     (\<forall>l\<in>set [''0.1 0.2'', ''0.3 0.4'']. point_line float_field 2 l) \<and>
     (map fst (columns t) = (if True then [''px'', ''py''] else [''px'', ''py'', ''pz'']) \<and>
      (\<forall>r\<in>set (rows t). length r = (if True then 2 else 3))) \<and>
     (\<exists>tb. parse_csv float_field [''px'', ''py'', ''pz''] [''0.1 0.2'', ''0.3 0.4''] = Inr tb \<and>
        index tb = map Pos [0 ..< length [''0.1 0.2'', ''0.3 0.4'']] \<and>
        rows tb = map (\<lambda>l. point_row float_field l @ [NaN]) [''0.1 0.2'', ''0.3 0.4''] \<and>
        rows (dropna tb) = [])"
proof -
  let ?t = "\<lparr>columns = [(''px'', Float32), (''py'', Float32)],
          body = [(Pos 0, [Num ''0.1'', Num ''0.2'']), (Pos 1, [Num ''0.3'', Num ''0.4'']),
                  (Pos 2, [Num ''0.5'', Num ''0.6'']), (Pos 3, [Num ''0.7'', Num ''0.8''])]\<rparr>"
  have n: "float_field [] = Some NaN"
    by code_simp
  have l: "\<forall>l\<in>set [''0.1 0.2'', ''0.3 0.4'']. point_line float_field 2 l"
    by code_simp
  note c = assemble_shape_columns [of float_field example_fs "''data''" 120 True ?t
      "[''0.1 0.2'', ''0.3 0.4'']"]
  have a: "map fst (columns ?t) = (if True then [''px'', ''py''] else [''px'', ''py'', ''pz'']) \<and>
      (\<forall>r\<in>set (rows ?t). length r = (if True then 2 else 3))"
    by (rule c [THEN conjunct1, THEN mp, OF example_assembled_120])
  have b: "\<exists>tb. parse_csv float_field [''px'', ''py'', ''pz''] [''0.1 0.2'', ''0.3 0.4''] = Inr tb \<and>
      index tb = map Pos [0 ..< length [''0.1 0.2'', ''0.3 0.4'']] \<and>
      rows tb = map (\<lambda>l. point_row float_field l @ [NaN]) [''0.1 0.2'', ''0.3 0.4''] \<and>
      rows (dropna tb) = []"
    by (rule c [THEN conjunct2, THEN mp, OF conjI [OF n l]])
  show ?thesis
    by (intro exI [of _ ?t] conjI example_assembled_120 n l a [THEN conjunct1]
        a [THEN conjunct2] b)
qed

subsection \<open>Lines with missing fields\<close>

text \<open>
  Claim C2, as the code has it: when every line of every shard file of the iteration is
  blank or has at most as many fields as there are columns, each field converting to a
  number or to NaN (the empty field converts to NaN), \<open>assemble_shape\<close> does not
  raise. In the table parsed from a file each non-blank line is a row, filled up with
  NaN where fields are missing; the cleaning step drops the rows with a NaN, and the
  table returned holds exactly the rows of the complete point lines, in order.
\<close>

theorem assemble_shape_drops_incomplete_rows:
  assumes "conv [] = Some NaN"
    and "shard_files fs path iteration \<noteq> []"
    and "\<forall>file\<in>set (shard_files fs path iteration).
           \<exists>ls. map_of fs file = Some (Text ls) \<and>
             (\<forall>l\<in>set ls. blank_line l \<or> readable_line conv (length (schema shape_2D)) l)"
  shows "\<exists>t. assemble_shape conv fs path iteration shape_2D = Inr t \<and>
           rows t = concat (map (\<lambda>file. map (point_row conv)
                       (filter (point_line conv (length (schema shape_2D))) (text_of fs file)))
                     (shard_files fs path iteration)) \<and>
           (\<forall>file\<in>set (shard_files fs path iteration).
              \<exists>tb. read_csv conv fs file (schema shape_2D) = Inr tb \<and>
                rows tb = map (\<lambda>l. point_row conv l @
                              replicate (length (schema shape_2D) - length (split_on (CHR '' '') l)) NaN)
                            (filter (\<lambda>l. \<not> blank_line l) (text_of fs file)))"
proof -
  let ?files = "shard_files fs path iteration"
  let ?names = "schema shape_2D"
  let ?k = "length ?names"
  let ?kept = "\<lambda>fl. map (point_row conv) (filter (point_line conv ?k) (text_of fs fl))"
  let ?all = "\<lambda>fl. map (\<lambda>l. point_row conv l @ replicate (?k - length (split_on (CHR '' '') l)) NaN)
                     (filter (\<lambda>l. \<not> blank_line l) (text_of fs fl))"
  have k: "2 \<le> ?k"
    by (simp add: schema_length)
  have pf: "read_csv conv fs fl ?names = Inr (frame ?names 0 (?all fl)) \<and>
            filter complete (file_rows conv ?names (text_of fs fl)) = ?kept fl"
    if "fl \<in> set ?files" for fl
  proof -
    from bspec [OF assms(3) that]
    obtain ls where ls: "map_of fs fl = Some (Text ls)"
      and ok: "\<forall>l\<in>set ls. blank_line l \<or> readable_line conv ?k l"
      by (elim exE conjE)
    have pad: "conv [] = Some NaN \<or>
           (\<forall>l\<in>set ls. \<not> blank_line l \<longrightarrow> length (split_on (CHR '' '') l) = ?k)"
      using assms(1) by simp
    have "map (\<lambda>l. map (cell_of conv) (fit ?k (split_on (CHR '' '') l)))
            (filter (\<lambda>l. \<not> blank_line l) ls) =
          map (\<lambda>l. point_row conv l @ replicate (?k - length (split_on (CHR '' '') l)) NaN)
            (filter (\<lambda>l. \<not> blank_line l) ls)"
    proof (rule map_cong [OF refl])
      fix l assume "l \<in> set (filter (\<lambda>l. \<not> blank_line l) ls)"
      then have "readable_line conv ?k l"
        using ok by auto
      then show "map (cell_of conv) (fit ?k (split_on (CHR '' '') l)) =
                 point_row conv l @ replicate (?k - length (split_on (CHR '' '') l)) NaN"
        using assms(1) by (rule readable_row)
    qed
    then have p: "parse_csv conv ?names ls = Inr (frame ?names 0
        (map (\<lambda>l. point_row conv l @ replicate (?k - length (split_on (CHR '' '') l)) NaN)
            (filter (\<lambda>l. \<not> blank_line l) ls)))"
      by (simp only: readable_file(1) [OF ok pad])
    have q: "filter complete (file_rows conv ?names ls) =
               map (point_row conv) (filter (point_line conv ?k) ls)"
      by (simp only: readable_file(2) [OF ok pad] point_line_filter_not_blank [OF k])
    show ?thesis
      unfolding read_csv_Text [OF ls] text_of_Text [OF ls] by (intro conjI p q)
  qed
  have parsed: "\<forall>fl\<in>set ?files. \<exists>tb. read_csv conv fs fl ?names = Inr tb \<and> rows tb = ?all fl"
  proof
    fix fl assume "fl \<in> set ?files"
    from pf [OF this] have "read_csv conv fs fl ?names = Inr (frame ?names 0 (?all fl))"
      by (rule conjunct1)
    moreover have "rows (frame ?names 0 (?all fl)) = ?all fl"
      unfolding rows_frame by simp
    ultimately show "\<exists>tb. read_csv conv fs fl ?names = Inr tb \<and> rows tb = ?all fl"
      by blast
  qed
  then have "\<forall>fl\<in>set ?files. \<exists>tb. read_csv conv fs fl ?names = Inr tb"
    by blast
  then obtain t where t: "assemble_shape conv fs path iteration shape_2D = Inr t"
    using assemble_shape_ok [OF assms(2)] by blast
  have "map (\<lambda>fl. filter complete (file_rows conv ?names (text_of fs fl))) ?files = map ?kept ?files"
    by (rule map_cong [OF refl]) (rule conjunct2 [OF pf])
  then have r: "rows t = concat (map ?kept ?files)"
    by (simp only: assemble_shape_Inr(3) [OF t])
  show ?thesis
    by (intro exI [of _ t] conjI t r parsed)
qed

text \<open>A shard with a line of one field and a line starting with \<open>nan\<close>: both are dropped,
  the two complete lines are kept.\<close>

theorem assemble_shape_drops_incomplete_rows_witness:
  "float_field [] = Some NaN \<and>
   shard_files gaps_fs ''data'' 150 = [''data/points_000150_n000.txt''] \<and>
   text_of gaps_fs ''data/points_000150_n000.txt'' =
     [''0.1 0.2'', ''0.3'', '''', ''nan 0.4'', ''0.5 0.6''] \<and>
   filter (point_line float_field (length (schema True)))
     [''0.1 0.2'', ''0.3'', '''', ''nan 0.4'', ''0.5 0.6''] = [''0.1 0.2'', ''0.5 0.6''] \<and>
   (\<exists>t. assemble_shape float_field gaps_fs ''data'' 150 True = Inr t \<and>
      rows t = concat (map (\<lambda>file. map (point_row float_field)
                  (filter (point_line float_field (length (schema True))) (text_of gaps_fs file)))
                (shard_files gaps_fs ''data'' 150)) \<and>
      (\<forall>file\<in>set (shard_files gaps_fs ''data'' 150).
         \<exists>tb. read_csv float_field gaps_fs file (schema True) = Inr tb \<and>
           rows tb = map (\<lambda>l. point_row float_field l @
                         replicate (length (schema True) - length (split_on (CHR '' '') l)) NaN)
                       (filter (\<lambda>l. \<not> blank_line l) (text_of gaps_fs file))))"
proof -
  have n: "float_field [] = Some NaN"
    by code_simp
  have tx: "text_of gaps_fs ''data/points_000150_n000.txt'' =
     [''0.1 0.2'', ''0.3'', '''', ''nan 0.4'', ''0.5 0.6'']"
    by (simp add: text_of_def gaps_shard_150)
  have kept: "filter (point_line float_field (length (schema True)))
     [''0.1 0.2'', ''0.3'', '''', ''nan 0.4'', ''0.5 0.6''] = [''0.1 0.2'', ''0.5 0.6'']"
    by code_simp
  have a: "\<forall>l\<in>set [''0.1 0.2'', ''0.3'', '''', ''nan 0.4'', ''0.5 0.6''].
             blank_line l \<or> readable_line float_field (length (schema True)) l"
    by code_simp
  have h2: "shard_files gaps_fs ''data'' 150 \<noteq> []"
    by (simp add: gaps_files_150)
  have h3: "\<forall>file\<in>set (shard_files gaps_fs ''data'' 150).
              \<exists>ls. map_of gaps_fs file = Some (Text ls) \<and>
                (\<forall>l\<in>set ls. blank_line l \<or> readable_line float_field (length (schema True)) l)"
    unfolding gaps_files_150 using a gaps_shard_150 by simp
  show ?thesis
    by (intro conjI n gaps_files_150 tx kept
        assemble_shape_drops_incomplete_rows [OF n h2 h3])
qed

text \<open>
  The claim as written fails: the second line of the shard of iteration 130 has the
  field \<open>abc\<close>, and the whole call raises instead of dropping that row.
\<close>

theorem assemble_shape_raises_on_text_field:
  "assemble_shape float_field example_fs ''data'' 130 True =
     Inl (ValueError ''could not convert string to float'')"
  by code_simp

subsection \<open>Which files are read\<close>

text \<open>
  Claim C10: every name of the source directory that starts with the prefix
  \<open>points_<iteration:06d>_n\<close>, whatever follows the prefix, is among the files
  \<open>assemble_shape\<close> reads; when the call returns a table, that file was parsed and its
  complete rows are rows of the table.
\<close>

theorem assemble_shape_reads_every_prefixed_name:
  assumes "listdir fs path = Some names" and "n \<in> set names"
    and "prefix (base_name iteration) n"
  shows "path @ ''/'' @ n \<in> set (shard_files fs path iteration) \<and>
         (\<forall>t. assemble_shape conv fs path iteration shape_2D = Inr t \<longrightarrow>
            (\<exists>tb. read_csv conv fs (path @ ''/'' @ n) (schema shape_2D) = Inr tb \<and>
               set (filter complete (rows tb)) \<subseteq> set (rows t)))"
proof (intro conjI allI impI)
  show m: "path @ ''/'' @ n \<in> set (shard_files fs path iteration)"
    using assms(2) base_name_match [OF assms(3)]
    by (simp add: shard_files_def glob_Some [OF assms(1)])
  fix t assume t: "assemble_shape conv fs path iteration shape_2D = Inr t"
  from bspec [OF assemble_shape_Inr(2) [OF t] m]
  obtain tb where tb: "read_csv conv fs (path @ ''/'' @ n) (schema shape_2D) = Inr tb"
    by (elim exE)
  have "set (filter complete (file_rows conv (schema shape_2D) (text_of fs (path @ ''/'' @ n))))
          \<subseteq> set (rows t)"
    unfolding assemble_shape_Inr(3) [OF t] using m by auto
  then have "set (filter complete (rows tb)) \<subseteq> set (rows t)"
    by (simp only: read_csv_rows(1) [OF tb])
  then show "\<exists>tb. read_csv conv fs (path @ ''/'' @ n) (schema shape_2D) = Inr tb \<and>
               set (filter complete (rows tb)) \<subseteq> set (rows t)"
    using tb by blast
qed

text \<open>The backup copy \<open>points_000120_n000.txt.bak\<close> is read, and its row is in the
  table of iteration 120.\<close>

theorem assemble_shape_reads_every_prefixed_name_witness:
  "listdir stray_fs ''data'' = Some [''points_000120_n000.txt.bak'', ''points_000120_n001.txt'',
      ''points_000120_n000.txt'', ''points_000130_n000.txt'', ''notes.txt''] \<and>
   prefix (base_name 120) ''points_000120_n000.txt.bak'' \<and>
   ''data'' @ ''/'' @ ''points_000120_n000.txt.bak'' \<in> set (shard_files stray_fs ''data'' 120) \<and>
   (\<exists>t tb. assemble_shape float_field stray_fs ''data'' 120 True = Inr t \<and>
      read_csv float_field stray_fs (''data'' @ ''/'' @ ''points_000120_n000.txt.bak'') (schema True)
        = Inr tb \<and>
      set (filter complete (rows tb)) \<subseteq> set (rows t) \<and>
      [Num ''9.8'', Num ''9.9''] \<in> set (rows t))"
proof -
  let ?t = "\<lparr>columns = [(''px'', Float32), (''py'', Float32)],
          body = [(Pos 0, [Num ''0.1'', Num ''0.2'']), (Pos 1, [Num ''0.3'', Num ''0.4'']),
                  (Pos 2, [Num ''0.5'', Num ''0.6'']), (Pos 3, [Num ''9.8'', Num ''9.9'']),
                  (Pos 4, [Num ''0.7'', Num ''0.8''])]\<rparr>"
  have p: "prefix (base_name 120) ''points_000120_n000.txt.bak''"
    by code_simp
  have n: "''points_000120_n000.txt.bak'' \<in> set [''points_000120_n000.txt.bak'',
      ''points_000120_n001.txt'', ''points_000120_n000.txt'', ''points_000130_n000.txt'',
      ''notes.txt'']"
    by simp
  note c = assemble_shape_reads_every_prefixed_name [OF stray_listing n p,
      of float_field True]
  from c [THEN conjunct2, rule_format, OF stray_assembled_120]
  obtain tb where tb: "read_csv float_field stray_fs
      (''data'' @ ''/'' @ ''points_000120_n000.txt.bak'') (schema True) = Inr tb"
    and sub: "set (filter complete (rows tb)) \<subseteq> set (rows ?t)"
    by (elim exE conjE)
  have r: "[Num ''9.8'', Num ''9.9''] \<in> set (rows ?t)"
    by (simp add: rows_def)
  show ?thesis
    by (intro conjI exI [of _ ?t] exI [of _ tb] stray_listing p c [THEN conjunct1]
        stray_assembled_120 tb sub r)
qed

subsection \<open>Serialization\<close>

text \<open>
  Claim C9: when the table of the iteration assembles, the target is a directory and
  the path of the artifact is not a directory, \<open>process_shape\<close> returns the file system
  in which \<open>target/plic_<iteration:06d>.pkl\<close> holds the pickled table (column names
  and the float32 type of every column as assembled), whatever was stored under that
  path before; the artifact is listed in the target directory, and every other path
  holds what it held. The call yields nothing but the new file system.
\<close>

theorem process_shape_writes_artifact:
  assumes "assemble_shape conv fs source iteration shape_2D = Inr data"
    and "map_of fs target = Some Dir"
    and "map_of fs (target @ ''/'' @ artifact_name iteration) \<noteq> Some Dir"
  shows "\<exists>fs'. process_shape conv fs source target iteration shape_2D = Inr fs' \<and>
           map_of fs' (target @ ''/'' @ artifact_name iteration) = Some (Pickled data) \<and>
           (\<forall>p. p \<noteq> target @ ''/'' @ artifact_name iteration \<longrightarrow> map_of fs' p = map_of fs p) \<and>
           (\<exists>names. listdir fs' target = Some names \<and> artifact_name iteration \<in> set names) \<and>
           columns data = map (\<lambda>n. (n, Float32)) (schema shape_2D)"
proof -
  let ?art = "target @ ''/'' @ artifact_name iteration"
  let ?fs' = "AList.update ?art (Pickled data) fs"
  have run: "process_shape conv fs source target iteration shape_2D = Inr ?fs'"
    by (simp only: process_shape_unfold assms(1) sum.case to_pickle_ok [OF assms(2,3)])
  have same: "map_of ?fs' ?art = Some (Pickled data)"
    by (rule update_lookup_same)
  have other: "\<forall>p. p \<noteq> ?art \<longrightarrow> map_of ?fs' p = map_of fs p"
    using update_lookup_other by metis
  have "target \<noteq> ?art"
    using joined_neq_dir [of target "artifact_name iteration"] by metis
  then have "map_of ?fs' target = Some Dir"
    using other assms(2) by metis
  then have listed: "\<exists>names. listdir ?fs' target = Some names \<and> artifact_name iteration \<in> set names"
    using same artifact_name_not_Nil artifact_name_no_slash by (rule listdir_has_entry)
  show ?thesis
    by (intro exI [of _ ?fs'] conjI run same other listed assemble_shape_Inr(5) [OF assms(1)])
qed

text \<open>Iteration 120 of the example is written to \<open>out/plic_000120.pkl\<close>.\<close>

theorem process_shape_writes_artifact_witness:
  "artifact_name 120 = ''plic_000120.pkl'' \<and>
   (\<exists>data fs'. assemble_shape float_field example_fs ''data'' 120 True = Inr data \<and>
      map_of example_fs ''out'' = Some Dir \<and>
      map_of example_fs (''out'' @ ''/'' @ artifact_name 120) \<noteq> Some Dir \<and>
      process_shape float_field example_fs ''data'' ''out'' 120 True = Inr fs' \<and>
      map_of fs' (''out'' @ ''/'' @ artifact_name 120) = Some (Pickled data) \<and>
      (\<forall>p. p \<noteq> ''out'' @ ''/'' @ artifact_name 120 \<longrightarrow> map_of fs' p = map_of example_fs p) \<and>
      (\<exists>names. listdir fs' ''out'' = Some names \<and> artifact_name 120 \<in> set names) \<and>
      columns data = map (\<lambda>n. (n, Float32)) (schema True))"
proof -
  let ?t = "\<lparr>columns = [(''px'', Float32), (''py'', Float32)],
          body = [(Pos 0, [Num ''0.1'', Num ''0.2'']), (Pos 1, [Num ''0.3'', Num ''0.4'']),
                  (Pos 2, [Num ''0.5'', Num ''0.6'']), (Pos 3, [Num ''0.7'', Num ''0.8''])]\<rparr>"
  from process_shape_writes_artifact [OF example_assembled_120 example_out example_no_artifact]
  obtain fs' where r: "process_shape float_field example_fs ''data'' ''out'' 120 True = Inr fs'"
    and s: "map_of fs' (''out'' @ ''/'' @ artifact_name 120) = Some (Pickled ?t)"
    and o: "\<forall>p. p \<noteq> ''out'' @ ''/'' @ artifact_name 120 \<longrightarrow> map_of fs' p = map_of example_fs p"
    and l: "\<exists>names. listdir fs' ''out'' = Some names \<and> artifact_name 120 \<in> set names"
    and c: "columns ?t = map (\<lambda>n. (n, Float32)) (schema True)"
    by blast
  show ?thesis
    by (intro conjI exI [of _ ?t] exI [of _ fs'] example_artifact example_assembled_120
        example_out example_no_artifact r s o l c)
qed

subsection \<open>Running twice\<close>

text \<open>
  Claim C8: a run of \<open>process_shape\<close> that succeeds leaves a file system on which the
  same call succeeds again and changes nothing, so the artifact of the second run is
  the artifact of the first. And two file systems that hold the same shard files of
  the iteration with the same contents, in whatever order the directory lists them
  and whatever else they hold, give equal artifacts.
\<close>

theorem process_shape_idempotent:
  "(process_shape conv fs source target iteration shape_2D = Inr fs' \<longrightarrow>
      process_shape conv fs' source target iteration shape_2D = Inr fs') \<and>
   (set (glob fs source (Lit_Star (base_name iteration))) =
      set (glob fs2 source (Lit_Star (base_name iteration))) \<and>
    (\<forall>f\<in>set (glob fs source (Lit_Star (base_name iteration))). map_of fs f = map_of fs2 f) \<and>
    process_shape conv fs source target iteration shape_2D = Inr fs' \<and>
    process_shape conv fs2 source target2 iteration shape_2D = Inr fs2' \<longrightarrow>
      map_of fs' (target @ ''/'' @ artifact_name iteration) =
      map_of fs2' (target2 @ ''/'' @ artifact_name iteration))"
proof (intro conjI impI)
  let ?art = "target @ ''/'' @ artifact_name iteration"
  assume run: "process_shape conv fs source target iteration shape_2D = Inr fs'"
  from process_shape_Inr [OF run]
  obtain data where a: "assemble_shape conv fs source iteration shape_2D = Inr data"
    and d: "map_of fs target = Some Dir"
    and n: "map_of fs ?art \<noteq> Some Dir"
    and fs': "fs' = AList.update ?art (Pickled data) fs"
    by (elim exE conjE)
  have a': "assemble_shape conv fs' source iteration shape_2D = Inr data"
    unfolding fs' using a n by (rule assemble_shape_after_write)
  have ne: "target \<noteq> ?art"
    using joined_neq_dir [of target "artifact_name iteration"] by metis
  have d': "map_of fs' target = Some Dir"
    unfolding fs' by (simp only: update_lookup_other [OF ne] d)
  have s: "map_of fs' ?art = Some (Pickled data)"
    unfolding fs' by (rule update_lookup_same)
  then have n': "map_of fs' ?art \<noteq> Some Dir"
    by simp
  have "AList.update ?art (Pickled data) fs' = fs'"
    using s by (rule update_triv)
  then show "process_shape conv fs' source target iteration shape_2D = Inr fs'"
    by (simp only: process_shape_unfold a' sum.case to_pickle_ok [OF d' n'])
next
  let ?pat = "Lit_Star (base_name iteration)"
  assume h: "set (glob fs source ?pat) = set (glob fs2 source ?pat) \<and>
    (\<forall>f\<in>set (glob fs source ?pat). map_of fs f = map_of fs2 f) \<and>
    process_shape conv fs source target iteration shape_2D = Inr fs' \<and>
    process_shape conv fs2 source target2 iteration shape_2D = Inr fs2'"
  then have g: "set (glob fs source ?pat) = set (glob fs2 source ?pat)"
    and c: "\<forall>f\<in>set (glob fs source ?pat). map_of fs f = map_of fs2 f"
    and r1: "process_shape conv fs source target iteration shape_2D = Inr fs'"
    and r2: "process_shape conv fs2 source target2 iteration shape_2D = Inr fs2'"
    by blast+
  have same: "assemble_shape conv fs source iteration shape_2D =
              assemble_shape conv fs2 source iteration shape_2D"
    using g c by (rule assemble_shape_cong)
  from process_shape_Inr [OF r1]
  obtain data where a: "assemble_shape conv fs source iteration shape_2D = Inr data"
    and fs': "fs' = AList.update (target @ ''/'' @ artifact_name iteration) (Pickled data) fs"
    by (elim exE conjE)
  from process_shape_Inr [OF r2]
  obtain data2 where a2: "assemble_shape conv fs2 source iteration shape_2D = Inr data2"
    and fs2': "fs2' = AList.update (target2 @ ''/'' @ artifact_name iteration) (Pickled data2) fs2"
    by (elim exE conjE)
  have "data = data2"
    using a a2 same by simp
  then show "map_of fs' (target @ ''/'' @ artifact_name iteration) =
             map_of fs2' (target2 @ ''/'' @ artifact_name iteration)"
    unfolding fs' fs2' by (simp only: update_lookup_same)
qed

text \<open>The example run twice, and run on the same files listed in reverse order.\<close>

theorem process_shape_idempotent_witness:
  "\<exists>fs' fs2'.
     process_shape float_field example_fs ''data'' ''out'' 120 True = Inr fs' \<and>
     process_shape float_field fs' ''data'' ''out'' 120 True = Inr fs' \<and>
     set (glob example_fs ''data'' (Lit_Star (base_name 120))) =
       set (glob (rev example_fs) ''data'' (Lit_Star (base_name 120))) \<and>
     (\<forall>f\<in>set (glob example_fs ''data'' (Lit_Star (base_name 120))).
        map_of example_fs f = map_of (rev example_fs) f) \<and>
     process_shape float_field (rev example_fs) ''data'' ''out'' 120 True = Inr fs2' \<and>
     map_of fs' (''out'' @ ''/'' @ artifact_name 120) =
       map_of fs2' (''out'' @ ''/'' @ artifact_name 120)"
proof -
  let ?t = "\<lparr>columns = [(''px'', Float32), (''py'', Float32)],
          body = [(Pos 0, [Num ''0.1'', Num ''0.2'']), (Pos 1, [Num ''0.3'', Num ''0.4'']),
                  (Pos 2, [Num ''0.5'', Num ''0.6'']), (Pos 3, [Num ''0.7'', Num ''0.8''])]\<rparr>"
  let ?fs' = "example_fs @ [(''out/plic_000120.pkl'', Pickled ?t)]"
  let ?fs2' = "rev example_fs @ [(''out/plic_000120.pkl'', Pickled ?t)]"
  note c = process_shape_idempotent [of float_field example_fs "''data''" "''out''" 120 True
      ?fs' "rev example_fs" "''out''" ?fs2']
  have again: "process_shape float_field ?fs' ''data'' ''out'' 120 True = Inr ?fs'"
    by (rule c [THEN conjunct1, THEN mp, OF example_written])
  have equal: "map_of ?fs' (''out'' @ ''/'' @ artifact_name 120) =
               map_of ?fs2' (''out'' @ ''/'' @ artifact_name 120)"
    by (rule c [THEN conjunct2, THEN mp])
      (intro conjI example_reversed_glob example_reversed_contents example_written
        example_reversed_written)
  show ?thesis
    by (intro exI [of _ ?fs'] exI [of _ ?fs2'] conjI example_written again
        example_reversed_glob example_reversed_contents example_reversed_written equal)
qed

end
